theory Spec2Isabelle
  imports Main
begin

section \<open>Terms, e-nodes and dependencies\<close>

text \<open>
  The sequence theory solver of \<^verbatim>\<open>src/smt/theory_seq.cpp\<close> works on the terms of its
  host. Terms are hash-consed there, so that the pointer comparisons of the source
  (\<^verbatim>\<open>a == b\<close>, \<^verbatim>\<open>l == lhs[0].get()\<close>) are equality of the syntax trees below.
\<close>

datatype sort = Bool_sort | Int_sort | Char_sort | Seq_sort sort | Re_sort sort | Uninterp_sort string

text \<open>
  One constructor for each head symbol that the recognizers of the source tell apart.
  A skolem term carries its tag (parameter 0 of its declaration), its one or two
  arguments and its range, as \<^verbatim>\<open>mk_skolem(name, e1, e2)\<close> builds it.
\<close>

datatype expr =
    Uninterp string "expr list" sort
  | Skolem string expr "expr option" sort
  | Concat expr expr
  | Str string
  | Empty sort
  | Unit expr
  | Length expr
  | Prefix expr expr
  | Suffix expr expr
  | Contains expr expr
  | Index expr expr
  | Replace expr expr expr
  | Extract expr expr expr
  | In_re expr expr
  | EqE expr expr
  | NotE expr
  | AndE "expr list"
  | OrE "expr list"
  | TrueE
  | FalseE
  | IntE int
  | AddE expr expr
  | LeE expr expr

datatype enode = Enode (get_owner: expr)

type_synonym enode_pair = "enode \<times> enode"

text \<open>
  Modelled from the spec: the dependency manager \<^verbatim>\<open>m_dm\<close> is not part of the source
  file. A dependency is a tree of leaves (e-node pairs) and joins; the null pointer is
  the empty dependency. \<open>join(d, \<emptyset>) = d\<close>, and joining a dependency with itself
  gives it back; \<open>linearize\<close> lists the pairs of the leaves.
\<close>

datatype dep = Leaf enode_pair | Join dep dep

type_synonym enode_pair_dependency = "dep option"

definition mk_join :: "enode_pair_dependency \<Rightarrow> enode_pair_dependency \<Rightarrow> enode_pair_dependency" where
  "mk_join d1 d2 =
     (case d1 of
        None \<Rightarrow> d2
      | Some a \<Rightarrow> (case d2 of None \<Rightarrow> d1 | Some b \<Rightarrow> if a = b then d1 else Some (Join a b)))"

fun leaves :: "dep \<Rightarrow> enode_pair list" where
  "leaves (Leaf p) = [p]"
| "leaves (Join a b) = leaves a @ leaves b"

definition linearize :: "enode_pair_dependency \<Rightarrow> enode_pair list" where
  "linearize d = (case d of None \<Rightarrow> [] | Some a \<Rightarrow> remdups (leaves a))"

text \<open>
  What ends a call other than a normal return: the fuel of a loop that need not
  terminate has run out, a \<^verbatim>\<open>VERIFY\<close> or \<^verbatim>\<open>UNREACHABLE\<close> has fired, the code is
  \<^verbatim>\<open>NOT_IMPLEMENTED_YET\<close>, or a vector is read out of its range.
\<close>

datatype error = Out_Of_Fuel | Assertion_Failed | Not_Implemented | Out_Of_Range

section \<open>The solution map\<close>

datatype map_update = INS | DEL

text \<open>
  \<^verbatim>\<open>m_updates\<close>, \<^verbatim>\<open>m_lhs\<close>, \<^verbatim>\<open>m_rhs\<close> and \<^verbatim>\<open>m_deps\<close> of the solution map are
  pushed together by \<^verbatim>\<open>add_trail\<close> and resized together by \<^verbatim>\<open>pop_scope\<close>: they are
  one list of entries here.
\<close>

type_synonym trail_entry = "map_update \<times> expr \<times> expr \<times> enode_pair_dependency"

record solution_map =
  m_map :: "expr \<rightharpoonup> (expr \<times> enode_pair_dependency)"
  m_trail :: "trail_entry list"
  m_limit :: "nat list"

definition add_trail ::
  "map_update \<Rightarrow> expr \<Rightarrow> expr \<Rightarrow> enode_pair_dependency \<Rightarrow> solution_map \<Rightarrow> solution_map" where
  "add_trail op l r d sm = sm\<lparr>m_trail := m_trail sm @ [(op, l, r, d)]\<rparr>"

definition update :: "expr \<Rightarrow> expr \<Rightarrow> enode_pair_dependency \<Rightarrow> solution_map \<Rightarrow> solution_map" where
  "update e r d sm =
     (let sm1 = (case m_map sm e of
                   Some value \<Rightarrow> add_trail DEL e (fst value) (snd value) sm
                 | None \<Rightarrow> sm);
          sm2 = sm1\<lparr>m_map := (m_map sm1)(e \<mapsto> (r, d))\<rparr>
      in add_trail INS e r d sm2)"

text \<open>
  The loop of \<^verbatim>\<open>find\<close> runs for ever on a cyclic map, so it takes fuel. \<^verbatim>\<open>num_finds\<close>
  is an \<^verbatim>\<open>unsigned\<close>; a walk that ends passes each entry of the table at most once and
  the table has fewer than \<open>2^32\<close> entries, so the counter does not wrap.
\<close>

fun find_loop ::
  "nat \<Rightarrow> (expr \<rightharpoonup> (expr \<times> enode_pair_dependency)) \<Rightarrow> expr \<Rightarrow> enode_pair_dependency \<Rightarrow> nat
     \<Rightarrow> error + (expr \<times> enode_pair_dependency \<times> nat)" where
  "find_loop 0 m result d num_finds = Inl Out_Of_Fuel"
| "find_loop (Suc fuel) m result d num_finds =
     (case m result of
        None \<Rightarrow> Inr (result, d, num_finds)
      | Some value \<Rightarrow> find_loop fuel m (fst value) (mk_join d (snd value)) (num_finds + 1))"

definition find_sol ::
  "nat \<Rightarrow> expr \<Rightarrow> solution_map \<Rightarrow> error + ((expr \<times> enode_pair_dependency) \<times> solution_map)" where
  "find_sol fuel e sm =
     (case find_loop fuel (m_map sm) e None 0 of
        Inl err \<Rightarrow> Inl err
      | Inr (result, d, num_finds) \<Rightarrow>
          Inr ((result, d), if num_finds > 1 then update e result d sm else sm))"

text \<open>
  Modelled from the spec: \<^verbatim>\<open>solution_map::push_scope\<close> is declared in the header, which
  is not part of the source file; it marks the current length of the trail.
\<close>

definition sm_push_scope :: "solution_map \<Rightarrow> solution_map" where
  "sm_push_scope sm = sm\<lparr>m_limit := m_limit sm @ [length (m_trail sm)]\<rparr>"

fun sm_undo :: "trail_entry \<Rightarrow> (expr \<rightharpoonup> (expr \<times> enode_pair_dependency)) \<Rightarrow> (expr \<rightharpoonup> (expr \<times> enode_pair_dependency))" where
  "sm_undo (INS, l, r, d) m = m(l := None)"
| "sm_undo (DEL, l, r, d) m = m(l \<mapsto> (r, d))"

text \<open>
  \<^verbatim>\<open>pop_scope\<close> reads \<^verbatim>\<open>m_limit[m_limit.size() - num_scopes]\<close>, which is out of range
  when more scopes are popped than were pushed, and undoes the trail from its end down
  to that mark. \<^verbatim>\<open>resize(start)\<close> cuts the trail; a mark beyond the end of the trail
  would make it grow, which no run reaches, and is an error here.
\<close>

definition sm_pop_scope :: "nat \<Rightarrow> solution_map \<Rightarrow> error + solution_map" where
  "sm_pop_scope num_scopes sm =
     (if num_scopes = 0 then Inr sm
      else if num_scopes > length (m_limit sm) then Inl Out_Of_Range
      else
        let start = m_limit sm ! (length (m_limit sm) - num_scopes) in
        if start > length (m_trail sm) then Inl Out_Of_Range
        else Inr (sm\<lparr>m_map := fold sm_undo (rev (drop start (m_trail sm))) (m_map sm),
                      m_trail := take start (m_trail sm),
                      m_limit := take (length (m_limit sm) - num_scopes) (m_limit sm)\<rparr>))"

section \<open>The host\<close>

text \<open>
  The solver is driven by its host (the SMT context) and calls back into it. The host,
  the term rewriter, the structural equality reducer \<^verbatim>\<open>seq_rewriter::reduce_eq\<close>, the
  term utilities and the model factory are not part of the source file: they are
  parameters of the model. A call that changes the host is a \<open>host_call\<close>, run by
  \<open>exec\<close> on the host's state \<open>'h\<close>; what the solver reads back is a field of its own.
\<close>

type_synonym theory_var = nat

type_synonym bool_var = nat

datatype literal = Literal_of expr | Literal_var bool_var

datatype host_call =
    Internalize expr
  | Mark_as_relevant literal
  | Assign literal "enode_pair list"
  | Set_conflict "enode_pair list"
  | Assign_eq enode enode "literal list" "enode_pair list"
  | Assume_eq enode enode
  | Mk_bool_var expr
  | Set_var_theory expr
  | Set_enode_flag expr
  | Mk_enode expr
  | Theory_mk_var enode
  | Attach_th_var enode
  | Mk_th_axiom literal
  | Theory_push_scope
  | Theory_pop_scope nat
  | Dm_push_scope
  | Dm_pop_scope nat
  | Fresh_value sort
  | Factory_add_trail expr
  | Register_factory

record 'h host =
  exec :: "host_call \<Rightarrow> 'h \<Rightarrow> 'h"
  inconsistent :: "'h \<Rightarrow> bool"
  e_internalized :: "'h \<Rightarrow> expr \<Rightarrow> bool"
  is_attached_to_var :: "'h \<Rightarrow> enode \<Rightarrow> bool"
  get_th_var :: "'h \<Rightarrow> enode \<Rightarrow> theory_var"
  get_enode :: "'h \<Rightarrow> theory_var \<Rightarrow> enode"
  bool_var2enode :: "'h \<Rightarrow> bool_var \<Rightarrow> enode"
  get_root :: "'h \<Rightarrow> enode \<Rightarrow> enode"
  class_of :: "'h \<Rightarrow> enode \<Rightarrow> enode list"
  enodes_of :: "'h \<Rightarrow> string \<Rightarrow> enode list"
  get_fresh_value :: "'h \<Rightarrow> sort \<Rightarrow> expr option"
  get_id :: "expr \<Rightarrow> nat"
  rewrite :: "expr \<Rightarrow> expr"
  reduce_eq :: "expr \<Rightarrow> expr \<Rightarrow> (expr \<times> expr) list option"
  get_concat :: "expr \<Rightarrow> expr list"
  mk_eq_atom :: "expr \<Rightarrow> expr \<Rightarrow> expr"
  args_right_first :: bool

text \<open>
  \<open>args_right_first\<close> is the choice of the compiler that C++ leaves open: whether
  the second of the two arguments of a call is evaluated before the first. \<^verbatim>\<open>expand\<close>
  builds a term from two recursive calls written as the arguments of one call.
\<close>

text \<open>
  Modelled from the spec: \<open>leaf(a, b)\<close> of the dependency manager returns a
  dependency that holds the single pair \<open>(a, b)\<close>, and the empty dependency if \<open>a\<close>
  and \<open>b\<close> have the same root.
\<close>

definition mk_leaf :: "'h host \<Rightarrow> 'h \<Rightarrow> enode_pair \<Rightarrow> enode_pair_dependency" where
  "mk_leaf H h p = (if get_root H h (fst p) = get_root H h (snd p) then None else Some (Leaf p))"

text \<open>
  \<open>reduce_eq\<close> is \<open>None\<close> where the reducer returns false (the equation is
  inconsistent). It fills its two result vectors in step
  (\<^verbatim>\<open>SASSERT(lhs.size() == rhs.size())\<close>), so that they are one list of pairs.
\<close>

section \<open>The exclusion table\<close>

text \<open>\<^verbatim>\<open>m_lhs\<close> and \<^verbatim>\<open>m_rhs\<close> of the table are pushed and resized together.\<close>

record exclusion_table =
  m_table :: "(expr \<times> expr) set"
  ex_pairs :: "(expr \<times> expr) list"
  ex_limit :: "nat list"

definition ex_order :: "'h host \<Rightarrow> expr \<Rightarrow> expr \<Rightarrow> expr \<times> expr" where
  "ex_order H e r = (if get_id H e > get_id H r then (r, e) else (e, r))"

definition ex_update :: "'h host \<Rightarrow> expr \<Rightarrow> expr \<Rightarrow> exclusion_table \<Rightarrow> exclusion_table" where
  "ex_update H e r ex =
     (let p = ex_order H e r in
      if fst p \<noteq> snd p \<and> p \<notin> m_table ex
      then ex\<lparr>ex_pairs := ex_pairs ex @ [p], m_table := insert p (m_table ex)\<rparr>
      else ex)"

text \<open>
  Modelled from the spec: \<^verbatim>\<open>exclusion_table::contains\<close> and
  \<^verbatim>\<open>exclusion_table::push_scope\<close> are declared in the header, which is not part of the
  source file. The pair is unordered, stored with the term of lower id first, and
  \<open>contains\<close> is the membership test.
\<close>

definition ex_contains :: "'h host \<Rightarrow> exclusion_table \<Rightarrow> expr \<Rightarrow> expr \<Rightarrow> bool" where
  "ex_contains H ex e r = (ex_order H e r \<in> m_table ex)"

definition ex_push_scope :: "exclusion_table \<Rightarrow> exclusion_table" where
  "ex_push_scope ex = ex\<lparr>ex_limit := ex_limit ex @ [length (ex_pairs ex)]\<rparr>"

definition ex_pop_scope :: "nat \<Rightarrow> exclusion_table \<Rightarrow> error + exclusion_table" where
  "ex_pop_scope num_scopes ex =
     (if num_scopes = 0 then Inr ex
      else if num_scopes > length (ex_limit ex) then Inl Out_Of_Range
      else
        let start = ex_limit ex ! (length (ex_limit ex) - num_scopes) in
        if start > length (ex_pairs ex) then Inl Out_Of_Range
        else Inr (ex\<lparr>m_table := m_table ex - set (drop start (ex_pairs ex)),
                      ex_pairs := take start (ex_pairs ex),
                      ex_limit := take (length (ex_limit ex) - num_scopes) (ex_limit ex)\<rparr>))"

section \<open>The state of the solver\<close>

text \<open>
  Modelled from the spec: the generic trail stack \<^verbatim>\<open>m_trail_stack\<close> is not part of the
  source file. Every mutation records an inverse on the trail; \<^verbatim>\<open>pop_scope(k)\<close>
  replays the inverses, last first, down to the mark of the scope. The source pushes
  four kinds of entries: \<^verbatim>\<open>value_trail\<close> for \<^verbatim>\<open>m_incomplete\<close> and for
  \<^verbatim>\<open>m_axioms_head\<close> (the old value is restored), and \<^verbatim>\<open>push_back_vector\<close> for
  \<^verbatim>\<open>m_axioms\<close> and for \<^verbatim>\<open>m_ineqs\<close> (the last element is removed).
\<close>

datatype trail = Value_trail_incomplete bool | Value_trail_axioms_head nat | Push_back_axioms | Push_back_ineqs

record trail_stack =
  ts_trail :: "trail list"
  ts_scopes :: "nat list"

record stats =
  m_num_splits :: nat
  m_num_reductions :: nat

text \<open>
  \<^verbatim>\<open>m_lhs\<close>, \<^verbatim>\<open>m_rhs\<close> and \<^verbatim>\<open>m_deps\<close> are stacks of frames of pending equations,
  pushed, overwritten and popped in step: a frame is one list of triples. The
  constructor pushes the first frame and no frame but a pushed one is popped, so that
  the stack is never empty: \<open>m_eqs\<close> is its last frame (\<^verbatim>\<open>m_lhs.back()\<close>,
  \<^verbatim>\<open>m_rhs.back()\<close>, \<^verbatim>\<open>m_deps.back()\<close>) and \<open>m_eqs_stack\<close> the frames below it,
  the oldest first.
\<close>

type_synonym eqs_frame = "(expr \<times> expr \<times> enode_pair_dependency) list"

record 'h theory_seq =
  m_rep :: solution_map
  m_exclude :: exclusion_table
  m_eqs :: eqs_frame
  m_eqs_stack :: "eqs_frame list"
  m_ineqs :: "expr list"
  m_axioms :: "expr list"
  m_axioms_head :: nat
  m_branch_variable_head :: nat
  m_incomplete :: bool
  m_model_completion :: bool
  m_trail_stack :: trail_stack
  m_stats :: stats
  ctx :: 'h

definition m_prefix_sym :: string where "m_prefix_sym = ''prefix''"
definition m_suffix_sym :: string where "m_suffix_sym = ''suffix''"
definition m_left_sym :: string where "m_left_sym = ''left''"
definition m_right_sym :: string where "m_right_sym = ''right''"
definition m_contains_left_sym :: string where "m_contains_left_sym = ''contains_left''"
definition m_contains_right_sym :: string where "m_contains_right_sym = ''contains_right''"

text \<open>The constructor: every store is empty and there is one empty frame.\<close>

definition init :: "'h \<Rightarrow> 'h theory_seq" where
  "init h =
     \<lparr>m_rep = \<lparr>m_map = Map.empty, m_trail = [], m_limit = []\<rparr>,
      m_exclude = \<lparr>m_table = {}, ex_pairs = [], ex_limit = []\<rparr>,
      m_eqs = [],
      m_eqs_stack = [],
      m_ineqs = [],
      m_axioms = [],
      m_axioms_head = 0,
      m_branch_variable_head = 0,
      m_incomplete = False,
      m_model_completion = False,
      m_trail_stack = \<lparr>ts_trail = [], ts_scopes = []\<rparr>,
      m_stats = \<lparr>m_num_splits = 0, m_num_reductions = 0\<rparr>,
      ctx = h\<rparr>"

definition call :: "'h host \<Rightarrow> host_call \<Rightarrow> 'h theory_seq \<Rightarrow> 'h theory_seq" where
  "call H c s = s\<lparr>ctx := exec H c (ctx s)\<rparr>"

definition ts_push :: "trail \<Rightarrow> 'h theory_seq \<Rightarrow> 'h theory_seq" where
  "ts_push t s = s\<lparr>m_trail_stack := (m_trail_stack s)\<lparr>ts_trail := ts_trail (m_trail_stack s) @ [t]\<rparr>\<rparr>"

definition ts_push_scope :: "'h theory_seq \<Rightarrow> 'h theory_seq" where
  "ts_push_scope s =
     s\<lparr>m_trail_stack := (m_trail_stack s)\<lparr>ts_scopes := ts_scopes (m_trail_stack s) @ [length (ts_trail (m_trail_stack s))]\<rparr>\<rparr>"

fun undo :: "trail \<Rightarrow> 'h theory_seq \<Rightarrow> 'h theory_seq" where
  "undo (Value_trail_incomplete old) s = s\<lparr>m_incomplete := old\<rparr>"
| "undo (Value_trail_axioms_head old) s = s\<lparr>m_axioms_head := old\<rparr>"
| "undo Push_back_axioms s = s\<lparr>m_axioms := butlast (m_axioms s)\<rparr>"
| "undo Push_back_ineqs s = s\<lparr>m_ineqs := butlast (m_ineqs s)\<rparr>"

definition ts_pop_scope :: "nat \<Rightarrow> 'h theory_seq \<Rightarrow> error + 'h theory_seq" where
  "ts_pop_scope num_scopes s =
     (let ts = m_trail_stack s in
      if num_scopes = 0 then Inr s
      else if num_scopes > length (ts_scopes ts) then Inl Out_Of_Range
      else
        let new_lvl = length (ts_scopes ts) - num_scopes;
            old_size = ts_scopes ts ! new_lvl
        in
        if old_size > length (ts_trail ts) then Inl Out_Of_Range
        else Inr ((fold undo (rev (drop old_size (ts_trail ts))) s)
                    \<lparr>m_trail_stack := \<lparr>ts_trail = take old_size (ts_trail ts),
                                       ts_scopes = take new_lvl (ts_scopes ts)\<rparr>\<rparr>))"

section \<open>Recognizers and constructors of terms\<close>

text \<open>
  Modelled from the spec: the sort of a term is kept by the host's term manager, which
  is not part of the source file. The source reads it for the empty sequence it builds
  (\<^verbatim>\<open>mk_empty(m.get_sort(l))\<close>), for the range of a skolem, and to tell Boolean and
  sequence terms from the others.
\<close>

fun get_sort :: "expr \<Rightarrow> sort" where
  "get_sort (Uninterp f es srt) = srt"
| "get_sort (Skolem tag e1 e2 srt) = srt"
| "get_sort (Concat a b) = get_sort a"
| "get_sort (Str s) = Seq_sort Char_sort"
| "get_sort (Empty srt) = srt"
| "get_sort (Unit e) = Seq_sort (get_sort e)"
| "get_sort (Length e) = Int_sort"
| "get_sort (Index s t) = Int_sort"
| "get_sort (Replace a s t) = get_sort a"
| "get_sort (Extract s i l) = get_sort s"
| "get_sort (IntE n) = Int_sort"
| "get_sort (AddE a b) = Int_sort"
| "get_sort e = Bool_sort"

definition is_bool :: "expr \<Rightarrow> bool" where
  "is_bool e = (get_sort e = Bool_sort)"

definition is_seq :: "expr \<Rightarrow> bool" where
  "is_seq e = (case get_sort e of Seq_sort elem \<Rightarrow> True | _ \<Rightarrow> False)"

fun args_of :: "expr \<Rightarrow> expr list" where
  "args_of (Uninterp f es srt) = es"
| "args_of (Skolem tag e1 e2 srt) = e1 # (case e2 of None \<Rightarrow> [] | Some e \<Rightarrow> [e])"
| "args_of (Concat a b) = [a, b]"
| "args_of (Unit e) = [e]"
| "args_of (Length e) = [e]"
| "args_of (Prefix a b) = [a, b]"
| "args_of (Suffix a b) = [a, b]"
| "args_of (Contains a b) = [a, b]"
| "args_of (Index s t) = [s, t]"
| "args_of (Replace a s t) = [a, s, t]"
| "args_of (Extract s i l) = [s, i, l]"
| "args_of (In_re s r) = [s, r]"
| "args_of (EqE a b) = [a, b]"
| "args_of (NotE a) = [a]"
| "args_of (AndE es) = es"
| "args_of (OrE es) = es"
| "args_of (AddE a b) = [a, b]"
| "args_of (LeE a b) = [a, b]"
| "args_of e = []"

fun is_uninterp :: "expr \<Rightarrow> bool" where
  "is_uninterp (Uninterp f es srt) = True"
| "is_uninterp e = False"

fun is_skolem :: "expr \<Rightarrow> bool" where
  "is_skolem (Skolem tag e1 e2 srt) = True"
| "is_skolem e = False"

fun is_concat :: "expr \<Rightarrow> bool" where
  "is_concat (Concat a b) = True"
| "is_concat e = False"

fun is_string :: "expr \<Rightarrow> bool" where
  "is_string (Str s) = True"
| "is_string e = False"

fun is_empty :: "expr \<Rightarrow> bool" where
  "is_empty (Empty srt) = True"
| "is_empty e = False"

fun is_unit :: "expr \<Rightarrow> bool" where
  "is_unit (Unit e) = True"
| "is_unit e = False"

fun is_prefix :: "expr \<Rightarrow> bool" where
  "is_prefix (Prefix a b) = True"
| "is_prefix e = False"

fun is_suffix :: "expr \<Rightarrow> bool" where
  "is_suffix (Suffix a b) = True"
| "is_suffix e = False"

fun is_contains :: "expr \<Rightarrow> bool" where
  "is_contains (Contains a b) = True"
| "is_contains e = False"

fun is_length :: "expr \<Rightarrow> bool" where
  "is_length (Length e) = True"
| "is_length e = False"

definition is_var :: "expr \<Rightarrow> bool" where
  "is_var a = (is_uninterp a \<or> is_skolem a)"

text \<open>
  \<^verbatim>\<open>is_left_select(a, b)\<close> and \<^verbatim>\<open>is_right_select(a, b)\<close> answer whether \<open>a\<close> is a
  skolem with the tag \<^verbatim>\<open>left\<close> (\<^verbatim>\<open>right\<close>) and then store its first argument in \<open>b\<close>.
\<close>

fun is_left_select :: "expr \<Rightarrow> expr option" where
  "is_left_select (Skolem tag e1 e2 srt) = (if tag = m_left_sym then Some e1 else None)"
| "is_left_select e = None"

fun is_right_select :: "expr \<Rightarrow> expr option" where
  "is_right_select (Skolem tag e1 e2 srt) = (if tag = m_right_sym then Some e1 else None)"
| "is_right_select e = None"

text \<open>
  The loop \<^verbatim>\<open>while (is_left_select(a, e1) || is_right_select(a, e1)) a = e1;\<close> of
  \<^verbatim>\<open>occurs\<close>, run on \<open>a\<close> and again on \<open>b\<close>.
\<close>

fun strip_select :: "expr \<Rightarrow> expr" where
  "strip_select (Skolem tag e1 e2 srt) =
     (if tag = m_left_sym \<or> tag = m_right_sym then strip_select e1 else Skolem tag e1 e2 srt)"
| "strip_select e = e"

text \<open>\<^verbatim>\<open>SASSERT(is_var(a))\<close> is checked in debug builds only.\<close>

fun occurs :: "expr \<Rightarrow> expr \<Rightarrow> bool" where
  "occurs a (Concat e1 e2) = (occurs (strip_select a) e1 \<or> occurs (strip_select a) e2)"
| "occurs a b = (strip_select a = strip_select b)"

text \<open>
  \<^verbatim>\<open>mk_skolem(name, e1, e2)\<close> with \<open>e2\<close> left out is \<^verbatim>\<open>mk_skolem(name, e1, 0)\<close>.
  Modelled from the spec: the three-argument \<^verbatim>\<open>mk_concat\<close> of the term utilities is
  not part of the source file; \<open>x\<frown>s\<frown>y\<close> is \<open>x\<frown>(s\<frown>y)\<close>.
\<close>

definition mk_skolem :: "string \<Rightarrow> expr \<Rightarrow> expr option \<Rightarrow> expr" where
  "mk_skolem name e1 e2 = Skolem name e1 e2 (get_sort e1)"

definition mk_concat3 :: "expr \<Rightarrow> expr \<Rightarrow> expr \<Rightarrow> expr" where
  "mk_concat3 a b c = Concat a (Concat b c)"

section \<open>Reporting to the host\<close>

text \<open>
  The justification that the source builds holds the linearized dependency and, for a
  propagation, its target; \<^verbatim>\<open>ctx.get_enode(e)\<close> is the e-node owned by \<open>e\<close>.
\<close>

definition propagate_lit :: "'h host \<Rightarrow> enode_pair_dependency \<Rightarrow> literal \<Rightarrow> 'h theory_seq \<Rightarrow> 'h theory_seq" where
  "propagate_lit H dep lit s = call H (Assign lit (linearize dep)) (call H (Mark_as_relevant lit) s)"

definition set_conflict :: "'h host \<Rightarrow> enode_pair_dependency \<Rightarrow> 'h theory_seq \<Rightarrow> 'h theory_seq" where
  "set_conflict H dep s = call H (Set_conflict (linearize dep)) s"

definition propagate_eq :: "'h host \<Rightarrow> enode_pair_dependency \<Rightarrow> enode \<Rightarrow> enode \<Rightarrow> 'h theory_seq \<Rightarrow> 'h theory_seq" where
  "propagate_eq H dep n1 n2 s = call H (Assign_eq n1 n2 [] (linearize dep)) s"

definition propagate_eq_lit :: "'h host \<Rightarrow> bool_var \<Rightarrow> expr \<Rightarrow> expr \<Rightarrow> 'h theory_seq \<Rightarrow> 'h theory_seq" where
  "propagate_eq_lit H v e1 e2 s =
     call H (Assign_eq (Enode e1) (Enode e2) [Literal_var v] []) (call H (Internalize e1) s)"

definition add_dependency :: "'h host \<Rightarrow> 'h \<Rightarrow> enode_pair_dependency \<Rightarrow> enode \<Rightarrow> enode \<Rightarrow> enode_pair_dependency" where
  "add_dependency H h dep a b = (if a \<noteq> b then mk_join dep (mk_leaf H h (a, b)) else dep)"

section \<open>The incompleteness flag and the variables of the theory\<close>

definition set_incomplete :: "expr \<Rightarrow> 'h theory_seq \<Rightarrow> 'h theory_seq" where
  "set_incomplete term s =
     (if \<not> m_incomplete s
      then (ts_push (Value_trail_incomplete (m_incomplete s)) s)\<lparr>m_incomplete := True\<rparr>
      else s)"

definition mk_var :: "'h host \<Rightarrow> enode \<Rightarrow> 'h theory_seq \<Rightarrow> theory_var \<times> 'h theory_seq" where
  "mk_var H n s =
     (if is_attached_to_var H (ctx s) n then (get_th_var H (ctx s) n, s)
      else
        let s1 = call H (Attach_th_var n) (call H (Theory_mk_var n) s)
        in (get_th_var H (ctx s1) n, s1))"

definition apply_sort_cnstr :: "'h host \<Rightarrow> enode \<Rightarrow> sort \<Rightarrow> 'h theory_seq \<Rightarrow> 'h theory_seq" where
  "apply_sort_cnstr H n srt s = snd (mk_var H n s)"

definition internalize_arg :: "'h host \<Rightarrow> expr \<Rightarrow> 'h theory_seq \<Rightarrow> 'h theory_seq" where
  "internalize_arg H arg s =
     (let s1 = call H (Internalize arg) s
      in if e_internalized H (ctx s1) arg then snd (mk_var H (Enode arg) s1) else s1)"

definition supported_head :: "expr \<Rightarrow> bool" where
  "supported_head term =
     (is_concat term \<or> is_string term \<or> is_empty term \<or> is_unit term \<or>
      is_suffix term \<or> is_prefix term \<or> is_contains term \<or> is_skolem term)"

definition internalize_term :: "'h host \<Rightarrow> expr \<Rightarrow> 'h theory_seq \<Rightarrow> bool \<times> 'h theory_seq" where
  "internalize_term H term s =
     (let s1 = fold (internalize_arg H) (args_of term) s;
          e = (if e_internalized H (ctx s1) term then Some (Enode term) else None);
          s2 = (if is_bool term
                then call H (Set_enode_flag term) (call H (Set_var_theory term) (call H (Mk_bool_var term) s1))
                else
                  let s1' = (case e of None \<Rightarrow> call H (Mk_enode term) s1 | Some n \<Rightarrow> s1)
                  in snd (mk_var H (Enode term) s1'));
          s3 = (if \<not> is_concat term \<and> \<not> is_string term \<and> \<not> is_empty term \<and> \<not> is_unit term \<and>
                   \<not> is_suffix term \<and> \<not> is_prefix term \<and> \<not> is_contains term \<and> \<not> is_skolem term
                then set_incomplete term s2 else s2)
      in (True, s3))"

definition internalize_atom :: "'h host \<Rightarrow> expr \<Rightarrow> 'h theory_seq \<Rightarrow> bool \<times> 'h theory_seq" where
  "internalize_atom H a s = internalize_term H a s"

section \<open>Canonization\<close>

text \<open>
  \<^verbatim>\<open>expand\<close> follows the solution map at \<open>e\<close> and then descends into concatenation,
  equality, prefix, suffix and contains. Neither the walk of \<^verbatim>\<open>find\<close> nor the descent
  need end on an arbitrary map, so both take fuel. The two recursive calls that
  rebuild a term are the arguments of one call, \<^verbatim>\<open>mk_concat(expand(e1, eqs), expand(e2, eqs))\<close>,
  and both change \<open>eqs\<close> and the solution map: C++ leaves their order open, and
  \<open>right_first\<close> says which of the two runs first.
\<close>

definition expand_args ::
  "bool
   \<Rightarrow> (expr \<Rightarrow> enode_pair_dependency \<Rightarrow> 'h theory_seq \<Rightarrow> error + (expr \<times> enode_pair_dependency \<times> 'h theory_seq))
   \<Rightarrow> (expr \<Rightarrow> expr \<Rightarrow> expr) \<Rightarrow> expr \<Rightarrow> expr \<Rightarrow> enode_pair_dependency \<Rightarrow> 'h theory_seq
   \<Rightarrow> error + (expr \<times> enode_pair_dependency \<times> 'h theory_seq)" where
  "expand_args right_first rec mk e1 e2 eqs s =
     (if right_first
      then
        (case rec e2 eqs s of
           Inl err \<Rightarrow> Inl err
         | Inr (r2, eqs1, s1) \<Rightarrow>
             (case rec e1 eqs1 s1 of
                Inl err \<Rightarrow> Inl err
              | Inr (r1, eqs2, s2) \<Rightarrow> Inr (mk r1 r2, eqs2, s2)))
      else
        (case rec e1 eqs s of
           Inl err \<Rightarrow> Inl err
         | Inr (r1, eqs1, s1) \<Rightarrow>
             (case rec e2 eqs1 s1 of
                Inl err \<Rightarrow> Inl err
              | Inr (r2, eqs2, s2) \<Rightarrow> Inr (mk r1 r2, eqs2, s2))))"

definition expand_var :: "'h host \<Rightarrow> expr \<Rightarrow> enode_pair_dependency \<Rightarrow> 'h theory_seq \<Rightarrow> expr \<times> enode_pair_dependency \<times> 'h theory_seq" where
  "expand_var H e eqs s =
     (if m_model_completion s \<and> is_var e
      then
        let val = get_fresh_value H (ctx s) (get_sort e);
            s1 = call H (Fresh_value (get_sort e)) s
        in (case val of
              Some v \<Rightarrow> (v, eqs, s1\<lparr>m_rep := update e v None (m_rep s1)\<rparr>)
            | None \<Rightarrow> (e, eqs, s1))
      else (e, eqs, s))"

fun expand ::
  "'h host \<Rightarrow> nat \<Rightarrow> expr \<Rightarrow> enode_pair_dependency \<Rightarrow> 'h theory_seq
   \<Rightarrow> error + (expr \<times> enode_pair_dependency \<times> 'h theory_seq)" where
  "expand H 0 e eqs s = Inl Out_Of_Fuel"
| "expand H (Suc fuel) e eqs s =
     (case find_sol (Suc fuel) e (m_rep s) of
        Inl err \<Rightarrow> Inl err
      | Inr (found, rep) \<Rightarrow>
          let s1 = s\<lparr>m_rep := rep\<rparr>;
              eqs1 = mk_join eqs (snd found)
          in (case fst found of
                Concat e1 e2 \<Rightarrow> expand_args (args_right_first H) (expand H fuel) Concat e1 e2 eqs1 s1
              | Empty srt \<Rightarrow> Inr (Empty srt, eqs1, s1)
              | Str str \<Rightarrow> Inr (Str str, eqs1, s1)
              | EqE e1 e2 \<Rightarrow> expand_args (args_right_first H) (expand H fuel) EqE e1 e2 eqs1 s1
              | Prefix e1 e2 \<Rightarrow> expand_args (args_right_first H) (expand H fuel) Prefix e1 e2 eqs1 s1
              | Suffix e1 e2 \<Rightarrow> expand_args (args_right_first H) (expand H fuel) Suffix e1 e2 eqs1 s1
              | Contains e1 e2 \<Rightarrow> expand_args (args_right_first H) (expand H fuel) Contains e1 e2 eqs1 s1
              | e' \<Rightarrow> Inr (expand_var H e' eqs1 s1)))"

definition canonize ::
  "'h host \<Rightarrow> nat \<Rightarrow> expr \<Rightarrow> enode_pair_dependency \<Rightarrow> 'h theory_seq
   \<Rightarrow> error + (expr \<times> enode_pair_dependency \<times> 'h theory_seq)" where
  "canonize H fuel e eqs s =
     (case expand H fuel e eqs s of
        Inl err \<Rightarrow> Inl err
      | Inr (result, eqs1, s1) \<Rightarrow> Inr (rewrite H result, eqs1, s1))"

text \<open>
  \<^verbatim>\<open>mk_value\<close> canonizes the owner of an e-node with \<^verbatim>\<open>m_model_completion\<close> set for
  the time of the call.
\<close>

definition mk_value :: "'h host \<Rightarrow> nat \<Rightarrow> enode \<Rightarrow> 'h theory_seq \<Rightarrow> error + (expr \<times> 'h theory_seq)" where
  "mk_value H fuel n s =
     (case canonize H fuel (get_owner n) None (s\<lparr>m_model_completion := True\<rparr>) of
        Inl err \<Rightarrow> Inl err
      | Inr (e, deps, s1) \<Rightarrow>
          Inr (e, (call H (Factory_add_trail e) s1)\<lparr>m_model_completion := m_model_completion s\<rparr>))"

definition init_model :: "'h host \<Rightarrow> 'h theory_seq \<Rightarrow> 'h theory_seq" where
  "init_model H s = call H Register_factory s"

section \<open>Simplifying and solving the pending equations\<close>

text \<open>
  \<^verbatim>\<open>simplify_eq\<close> takes \<open>deps\<close> by value and hands it to \<^verbatim>\<open>canonize\<close> by reference:
  the dependency it uses afterwards is \<open>deps\<close> joined with the witnesses of both
  canonizations. The result of the reducer is compared with \<open>l\<close> and \<open>r\<close>, the sides
  as they were handed in.
\<close>

definition simplify_eq ::
  "'h host \<Rightarrow> nat \<Rightarrow> expr \<Rightarrow> expr \<Rightarrow> enode_pair_dependency \<Rightarrow> 'h theory_seq \<Rightarrow> error + (bool \<times> 'h theory_seq)" where
  "simplify_eq H fuel l r deps s =
     (case canonize H fuel l deps s of
        Inl err \<Rightarrow> Inl err
      | Inr (lh, deps1, s1) \<Rightarrow>
          (case canonize H fuel r deps1 s1 of
             Inl err \<Rightarrow> Inl err
           | Inr (rh, deps2, s2) \<Rightarrow>
               (case reduce_eq H lh rh of
                  None \<Rightarrow> Inr (True, set_conflict H deps2 s2)
                | Some eqs \<Rightarrow>
                    if eqs = [(l, r)] then Inr (False, s2)
                    else Inr (True, s2\<lparr>m_eqs := m_eqs s2 @ map (\<lambda>p. (fst p, snd p, deps2)) eqs\<rparr>))))"

definition add_solution :: "'h host \<Rightarrow> expr \<Rightarrow> expr \<Rightarrow> enode_pair_dependency \<Rightarrow> 'h theory_seq \<Rightarrow> 'h theory_seq" where
  "add_solution H l r deps s =
     (let s1 = s\<lparr>m_rep := update l r deps (m_rep s)\<rparr>
      in if e_internalized H (ctx s1) l \<and> e_internalized H (ctx s1) r
         then propagate_eq H deps (Enode l) (Enode r) s1
         else s1)"

definition solve_unit_eq ::
  "'h host \<Rightarrow> nat \<Rightarrow> expr \<Rightarrow> expr \<Rightarrow> enode_pair_dependency \<Rightarrow> 'h theory_seq \<Rightarrow> error + (bool \<times> 'h theory_seq)" where
  "solve_unit_eq H fuel l r deps s =
     (case canonize H fuel l deps s of
        Inl err \<Rightarrow> Inl err
      | Inr (lh, deps1, s1) \<Rightarrow>
          (case canonize H fuel r deps1 s1 of
             Inl err \<Rightarrow> Inl err
           | Inr (rh, deps2, s2) \<Rightarrow>
               if lh = rh then Inr (True, s2)
               else if is_var lh \<and> \<not> occurs lh rh then Inr (True, add_solution H lh rh deps2 s2)
               else if is_var rh \<and> \<not> occurs rh lh then Inr (True, add_solution H rh lh deps2 s2)
               else Inr (False, s2)))"

text \<open>
  The loop of \<^verbatim>\<open>pre_process_eqs\<close> over the current frame. An equation that was
  simplified or solved is overwritten by the last one and the frame is cut by one;
  \<^verbatim>\<open>simplify_eq\<close> may have added equations at the end before. After \<^verbatim>\<open>--i\<close> the
  \<^verbatim>\<open>++i\<close> of the loop leaves \<open>i\<close> where it was (for \<open>i = 0\<close> the \<^verbatim>\<open>unsigned\<close> wraps to
  its largest value and back to \<open>0\<close>). \<^verbatim>\<open>m_num_reductions\<close> is an \<^verbatim>\<open>unsigned\<close>
  counter. The frame can grow for ever, so the loop takes fuel.
\<close>

definition remove_eq :: "nat \<Rightarrow> 'h theory_seq \<Rightarrow> nat \<times> 'h theory_seq" where
  "remove_eq i s =
     (if i + 1 \<noteq> length (m_eqs s)
      then (i, s\<lparr>m_eqs := butlast ((m_eqs s)[i := last (m_eqs s)]),
                 m_stats := (m_stats s)\<lparr>m_num_reductions := (m_num_reductions (m_stats s) + 1) mod 2 ^ 32\<rparr>\<rparr>)
      else (i + 1, s\<lparr>m_eqs := butlast (m_eqs s)\<rparr>))"

fun pre_process_loop ::
  "'h host \<Rightarrow> nat \<Rightarrow> bool \<Rightarrow> nat \<Rightarrow> bool \<Rightarrow> 'h theory_seq \<Rightarrow> error + (bool \<times> 'h theory_seq)" where
  "pre_process_loop H 0 simplify_or_solve i change s = Inl Out_Of_Fuel"
| "pre_process_loop H (Suc fuel) simplify_or_solve i change s =
     (if \<not> inconsistent H (ctx s) \<and> i < length (m_eqs s)
      then
        (case (if simplify_or_solve
               then simplify_eq H (Suc fuel) (fst (m_eqs s ! i)) (fst (snd (m_eqs s ! i))) (snd (snd (m_eqs s ! i))) s
               else solve_unit_eq H (Suc fuel) (fst (m_eqs s ! i)) (fst (snd (m_eqs s ! i))) (snd (snd (m_eqs s ! i))) s) of
           Inl err \<Rightarrow> Inl err
         | Inr (done, s1) \<Rightarrow>
             if done
             then pre_process_loop H fuel simplify_or_solve (fst (remove_eq i s1)) True (snd (remove_eq i s1))
             else pre_process_loop H fuel simplify_or_solve (i + 1) change s1)
      else Inr (change, s))"

definition pre_process_eqs :: "'h host \<Rightarrow> nat \<Rightarrow> bool \<Rightarrow> 'h theory_seq \<Rightarrow> error + (bool \<times> 'h theory_seq)" where
  "pre_process_eqs H fuel simplify_or_solve s = pre_process_loop H fuel simplify_or_solve 0 False s"

definition simplify_eqs :: "'h host \<Rightarrow> nat \<Rightarrow> 'h theory_seq \<Rightarrow> error + (bool \<times> 'h theory_seq)" where
  "simplify_eqs H fuel s = pre_process_eqs H fuel True s"

definition solve_basic_eqs :: "'h host \<Rightarrow> nat \<Rightarrow> 'h theory_seq \<Rightarrow> error + (bool \<times> 'h theory_seq)" where
  "solve_basic_eqs H fuel s = pre_process_eqs H fuel False s"

fun solve_loop :: "'h host \<Rightarrow> nat \<Rightarrow> bool \<Rightarrow> 'h theory_seq \<Rightarrow> error + (bool \<times> 'h theory_seq)" where
  "solve_loop H 0 change s = Inl Out_Of_Fuel"
| "solve_loop H (Suc fuel) change s =
     (if inconsistent H (ctx s) then Inr (change, s)
      else
        (case solve_basic_eqs H (Suc fuel) s of
           Inl err \<Rightarrow> Inl err
         | Inr (solved, s1) \<Rightarrow>
             if solved
             then (case simplify_eqs H (Suc fuel) s1 of
                     Inl err \<Rightarrow> Inl err
                   | Inr (simplified, s2) \<Rightarrow> solve_loop H fuel True s2)
             else Inr (change, s1)))"

definition simplify_and_solve_eqs :: "'h host \<Rightarrow> nat \<Rightarrow> 'h theory_seq \<Rightarrow> error + (bool \<times> 'h theory_seq)" where
  "simplify_and_solve_eqs H fuel s =
     (case simplify_eqs H fuel s of
        Inl err \<Rightarrow> Inl err
      | Inr (change, s1) \<Rightarrow> solve_loop H fuel change s1)"

section \<open>Checking the inequations\<close>

text \<open>
  The loop of \<^verbatim>\<open>check_ineqs\<close> reads \<^verbatim>\<open>m_ineqs[i]\<close> for \<open>i\<close> from \<open>0\<close>; nothing in its
  body changes \<^verbatim>\<open>m_ineqs\<close>, so it is a recursion over the atoms that are left. It
  answers false when it has refuted an atom.
\<close>

fun check_ineqs_loop :: "'h host \<Rightarrow> nat \<Rightarrow> expr list \<Rightarrow> 'h theory_seq \<Rightarrow> error + (bool \<times> 'h theory_seq)" where
  "check_ineqs_loop H fuel [] s = Inr (True, s)"
| "check_ineqs_loop H fuel (a # as) s =
     (case canonize H fuel a None s of
        Inl err \<Rightarrow> Inl err
      | Inr (b, eqs, s1) \<Rightarrow>
          if b = TrueE
          then Inr (False, propagate_lit H eqs (Literal_of a) (call H (Internalize a) s1))
          else check_ineqs_loop H fuel as s1)"

definition check_ineqs :: "'h host \<Rightarrow> nat \<Rightarrow> 'h theory_seq \<Rightarrow> error + (bool \<times> 'h theory_seq)" where
  "check_ineqs H fuel s = check_ineqs_loop H fuel (m_ineqs s) s"

section \<open>Branching\<close>

definition assume_equality :: "'h host \<Rightarrow> expr \<Rightarrow> expr \<Rightarrow> 'h theory_seq \<Rightarrow> bool \<times> 'h theory_seq" where
  "assume_equality H l r s =
     (if ex_contains H (m_exclude s) l r then (False, s)
      else
        let s1 = (if \<not> e_internalized H (ctx s) r then call H (Internalize r) s else s)
        in (True, call H (Assume_eq (Enode l) (Enode r)) s1))"

text \<open>
  The inner loop of \<^verbatim>\<open>find_branch_candidate\<close> over the proper prefixes of a string
  atom: \<^verbatim>\<open>std::string(s.c_str(), k)\<close> for \<open>k\<close> from \<open>1\<close> below the length of \<open>s\<close>.
  \<open>v0\<close> is never null, so the prefix is always concatenated to it.
\<close>

fun branch_prefixes :: "'h host \<Rightarrow> expr \<Rightarrow> expr \<Rightarrow> string \<Rightarrow> nat list \<Rightarrow> 'h theory_seq \<Rightarrow> bool \<times> 'h theory_seq" where
  "branch_prefixes H l v0 str [] s = (False, s)"
| "branch_prefixes H l v0 str (k # ks) s =
     (case assume_equality H l (Concat v0 (Str (take k str))) s of
        (True, s1) \<Rightarrow> (True, s1)
      | (False, s1) \<Rightarrow> branch_prefixes H l v0 str ks s1)"

text \<open>The outer loop over the atoms \<open>rs[j]\<close>, with the atoms that are left.\<close>

fun branch_atoms :: "'h host \<Rightarrow> expr \<Rightarrow> expr \<Rightarrow> nat \<Rightarrow> expr list \<Rightarrow> 'h theory_seq \<Rightarrow> bool \<times> 'h theory_seq" where
  "branch_atoms H l v0 j [] s = (False, s)"
| "branch_atoms H l v0 j (r # rs) s =
     (if occurs l r then (False, s)
      else
        (case (case r of Str str \<Rightarrow> branch_prefixes H l v0 str [1..<length str] s | _ \<Rightarrow> (False, s)) of
           (True, s1) \<Rightarrow> (True, s1)
         | (False, s1) \<Rightarrow>
             (case assume_equality H l (if j = 0 then r else Concat v0 r) s1 of
                (True, s2) \<Rightarrow> (True, s2)
              | (False, s2) \<Rightarrow> branch_atoms H l (if j = 0 then r else Concat v0 r) (j + 1) rs s2)))"

definition find_branch_candidate :: "'h host \<Rightarrow> expr \<Rightarrow> expr list \<Rightarrow> 'h theory_seq \<Rightarrow> bool \<times> 'h theory_seq" where
  "find_branch_candidate H l rs s =
     (if \<not> is_var l then (False, s)
      else
        (case assume_equality H l (Empty (get_sort l)) s of
           (True, s1) \<Rightarrow> (True, s1)
         | (False, s1) \<Rightarrow> branch_atoms H l (Empty (get_sort l)) 0 rs s1))"

text \<open>
  The loop of \<^verbatim>\<open>branch_variable\<close> over the equations of the current frame, from the
  round-robin cursor; \<open>sz\<close> is the size of the frame when the loop starts, and the sum
  of the two \<^verbatim>\<open>unsigned\<close> values wraps.
\<close>

definition branch_index :: "nat \<Rightarrow> nat \<Rightarrow> nat \<Rightarrow> nat" where
  "branch_index i head sz = ((i + head) mod 2 ^ 32) mod sz"

fun branch_loop :: "'h host \<Rightarrow> nat \<Rightarrow> nat list \<Rightarrow> 'h theory_seq \<Rightarrow> bool \<times> 'h theory_seq" where
  "branch_loop H sz [] s = (False, s)"
| "branch_loop H sz (i # is) s =
     (let k = branch_index i (m_branch_variable_head s) sz;
          ls = get_concat H (fst (m_eqs s ! k));
          rs = get_concat H (fst (snd (m_eqs s ! k)))
      in
        (case (if ls \<noteq> [] then find_branch_candidate H (hd ls) rs s else (False, s)) of
           (True, s1) \<Rightarrow> (True, s1\<lparr>m_branch_variable_head := k\<rparr>)
         | (False, s1) \<Rightarrow>
             (case (if rs \<noteq> [] then find_branch_candidate H (hd rs) ls s1 else (False, s1)) of
                (True, s2) \<Rightarrow> (True, s2\<lparr>m_branch_variable_head := k\<rparr>)
              | (False, s2) \<Rightarrow> branch_loop H sz is s2)))"

definition branch_variable :: "'h host \<Rightarrow> 'h theory_seq \<Rightarrow> bool \<times> 'h theory_seq" where
  "branch_variable H s = branch_loop H (length (m_eqs s)) [0..<length (m_eqs s)] s"

definition split_variable :: "'h theory_seq \<Rightarrow> bool" where
  "split_variable s = False"

section \<open>The final check\<close>

datatype final_check_status = FC_DONE | FC_CONTINUE | FC_GIVEUP

definition final_check_eh :: "'h host \<Rightarrow> nat \<Rightarrow> 'h theory_seq \<Rightarrow> error + (final_check_status \<times> 'h theory_seq)" where
  "final_check_eh H fuel s =
     (case check_ineqs H fuel s of
        Inl err \<Rightarrow> Inl err
      | Inr (ok, s1) \<Rightarrow>
          if \<not> ok then Inr (FC_CONTINUE, s1)
          else
            (case simplify_and_solve_eqs H fuel s1 of
               Inl err \<Rightarrow> Inl err
             | Inr (change, s2) \<Rightarrow>
                 if change then Inr (FC_CONTINUE, s2)
                 else if inconsistent H (ctx s2) then Inr (FC_CONTINUE, s2)
                 else
                   (case branch_variable H s2 of
                      (True, s3) \<Rightarrow> Inr (FC_CONTINUE, s3)
                    | (False, s3) \<Rightarrow>
                        if split_variable s3 then Inr (FC_CONTINUE, s3)
                        else if inconsistent H (ctx s3) then Inr (FC_CONTINUE, s3)
                        else if length (m_eqs s3) > 0 \<or> m_incomplete s3 then Inr (FC_GIVEUP, s3)
                        else Inr (FC_DONE, s3))))"

section \<open>The axioms\<close>

definition can_propagate :: "'h theory_seq \<Rightarrow> bool" where
  "can_propagate s = (m_axioms_head s < length (m_axioms s))"

definition create_axiom :: "expr \<Rightarrow> 'h theory_seq \<Rightarrow> 'h theory_seq" where
  "create_axiom e s = (ts_push Push_back_axioms s)\<lparr>m_axioms := m_axioms s @ [e]\<rparr>"

definition assert_axiom :: "'h host \<Rightarrow> expr \<Rightarrow> 'h theory_seq \<Rightarrow> 'h theory_seq" where
  "assert_axiom H e s =
     (if e = TrueE then s
      else call H (Mk_th_axiom (Literal_of e))
             (call H (Mark_as_relevant (Literal_of e)) (call H (Internalize e) s)))"

text \<open>
  The loop of \<^verbatim>\<open>propagate\<close>: \<^verbatim>\<open>assert_axiom\<close> changes the host only, so the cursor
  reaches the end of the list, and the loop is a recursion over the axioms from the
  cursor on.
\<close>

fun propagate_loop :: "'h host \<Rightarrow> expr list \<Rightarrow> 'h theory_seq \<Rightarrow> 'h theory_seq" where
  "propagate_loop H [] s = s"
| "propagate_loop H (e # es) s =
     (if inconsistent H (ctx s) then s
      else propagate_loop H es ((assert_axiom H e s)\<lparr>m_axioms_head := m_axioms_head s + 1\<rparr>))"

definition propagate :: "'h host \<Rightarrow> 'h theory_seq \<Rightarrow> 'h theory_seq" where
  "propagate H s = propagate_loop H (drop (m_axioms_head s) (m_axioms s)) s"

definition tightest_prefix :: "expr \<Rightarrow> expr \<Rightarrow> expr" where
  "tightest_prefix s x =
     (let s1 = mk_skolem ''first'' s None;
          c = mk_skolem ''last'' s None
      in AndE [EqE s (Concat s1 c),
               EqE (Length c) (IntE 1),
               NotE (Contains s (Concat x s1))])"

definition add_len_concat_axiom :: "expr \<Rightarrow> 'h theory_seq \<Rightarrow> error + 'h theory_seq" where
  "add_len_concat_axiom c s =
     (case c of
        Concat a b \<Rightarrow> Inr (create_axiom (EqE (AddE (Length a) (Length b)) (Length c)) s)
      | _ \<Rightarrow> Inl Assertion_Failed)"

definition add_indexof_axiom :: "expr \<Rightarrow> 'h theory_seq \<Rightarrow> error + 'h theory_seq" where
  "add_indexof_axiom i st =
     (case i of
        Index s t \<Rightarrow>
          let x = mk_skolem m_contains_left_sym s (Some t);
              y = mk_skolem m_contains_right_sym s (Some t);
              eq_empty = EqE s (Empty (get_sort s));
              cnt = Contains s t;
              st1 = create_axiom (OrE [cnt, EqE i (IntE (- 1))]) st;
              st2 = create_axiom (OrE [NotE cnt, NotE eq_empty, EqE i (IntE 0)]) st1;
              st3 = create_axiom (OrE [NotE cnt, eq_empty, EqE t (mk_concat3 x s y)]) st2;
              st4 = create_axiom (OrE [NotE cnt, eq_empty, tightest_prefix s x]) st3
          in Inr st4
      | _ \<Rightarrow> Inl Assertion_Failed)"

definition add_replace_axiom :: "expr \<Rightarrow> 'h theory_seq \<Rightarrow> error + 'h theory_seq" where
  "add_replace_axiom r st =
     (case r of
        Replace a s t \<Rightarrow>
          let cnt = Contains s a;
              x = mk_skolem m_contains_left_sym s (Some a);
              y = mk_skolem m_contains_right_sym s (Some a);
              st1 = create_axiom (OrE [NotE cnt, EqE a (mk_concat3 x s y)]) st;
              st2 = create_axiom (OrE [NotE cnt, EqE r (mk_concat3 x t y)]) st1;
              st3 = create_axiom (OrE [NotE cnt, tightest_prefix s x]) st2;
              st4 = create_axiom (OrE [cnt, EqE r a]) st3
          in Inr st4
      | _ \<Rightarrow> Inl Assertion_Failed)"

definition add_len_axiom :: "'h host \<Rightarrow> expr \<Rightarrow> 'h theory_seq \<Rightarrow> error + 'h theory_seq" where
  "add_len_axiom H n st =
     (case n of
        Length x \<Rightarrow>
          let eq1 = EqE (IntE 0) n;
              eq2 = EqE x (Empty (get_sort x));
              st1 = create_axiom (LeE (IntE 0) n) st;
              st2 = create_axiom (OrE [NotE eq1, eq2]) st1;
              st3 = create_axiom (OrE [NotE eq2, eq1]) st2;
              nr = rewrite H n
          in Inr (if nr \<noteq> n then create_axiom (EqE n nr) st3 else st3)
      | _ \<Rightarrow> Inl Assertion_Failed)"

definition add_extract_axiom :: "expr \<Rightarrow> 'h theory_seq \<Rightarrow> error + 'h theory_seq" where
  "add_extract_axiom e st =
     (case e of
        Extract s i j \<Rightarrow> Inl Not_Implemented
      | _ \<Rightarrow> Inl Assertion_Failed)"

section \<open>The event handlers\<close>

definition assign_eq :: "'h host \<Rightarrow> bool_var \<Rightarrow> bool \<Rightarrow> 'h theory_seq \<Rightarrow> error + 'h theory_seq" where
  "assign_eq H v is_true s =
     (let e = get_owner (bool_var2enode H (ctx s) v) in
      if is_true
      then
        (case e of
           Prefix e1 e2 \<Rightarrow>
             Inr (propagate_eq_lit H v (Concat e1 (mk_skolem m_prefix_sym e1 (Some e2))) e2 s)
         | Suffix e1 e2 \<Rightarrow>
             Inr (propagate_eq_lit H v (Concat (mk_skolem m_suffix_sym e1 (Some e2)) e1) e2 s)
         | Contains e1 e2 \<Rightarrow>
             Inr (propagate_eq_lit H v
                    (Concat (Concat (mk_skolem m_contains_left_sym e1 (Some e2)) e1)
                            (mk_skolem m_contains_right_sym e1 (Some e2))) e2 s)
         | In_re e1 e2 \<Rightarrow> Inl Not_Implemented
         | _ \<Rightarrow> Inl Assertion_Failed)
      else Inr ((ts_push Push_back_ineqs s)\<lparr>m_ineqs := m_ineqs s @ [e]\<rparr>))"

text \<open>
  \<^verbatim>\<open>new_eq_len_concat\<close> sets \<^verbatim>\<open>f_len\<close> to null and returns when it is null; the loops
  behind the test walk the e-nodes of \<^verbatim>\<open>f_len\<close> and the class of \<open>n2\<close>.
\<close>

definition f_len :: "string option" where
  "f_len = None"

fun len_concat_class :: "enode list \<Rightarrow> 'h theory_seq \<Rightarrow> error + 'h theory_seq" where
  "len_concat_class [] s = Inr s"
| "len_concat_class (n # ns) s =
     (if is_concat (get_owner n)
      then (case add_len_concat_axiom (get_owner n) s of
              Inl err \<Rightarrow> Inl err
            | Inr s1 \<Rightarrow> len_concat_class ns s1)
      else len_concat_class ns s)"

fun len_concat_loop :: "'h host \<Rightarrow> enode list \<Rightarrow> enode \<Rightarrow> enode \<Rightarrow> 'h theory_seq \<Rightarrow> error + 'h theory_seq" where
  "len_concat_loop H [] n1 n2 s = Inr s"
| "len_concat_loop H (it # its) n1 n2 s =
     (if get_root H (ctx s) it = get_root H (ctx s) n1
      then (case len_concat_class (class_of H (ctx s) n2) s of
              Inl err \<Rightarrow> Inl err
            | Inr s1 \<Rightarrow> len_concat_loop H its n1 n2 s1)
      else len_concat_loop H its n1 n2 s)"

definition new_eq_len_concat :: "'h host \<Rightarrow> enode \<Rightarrow> enode \<Rightarrow> 'h theory_seq \<Rightarrow> error + 'h theory_seq" where
  "new_eq_len_concat H n1 n2 s =
     (if \<not> is_seq (get_owner n1) then Inr s
      else
        (case f_len of
           None \<Rightarrow> Inr s
         | Some f \<Rightarrow> len_concat_loop H (enodes_of H (ctx s) f) n1 n2 s))"

definition new_eq_eh :: "'h host \<Rightarrow> theory_var \<Rightarrow> theory_var \<Rightarrow> 'h theory_seq \<Rightarrow> error + 'h theory_seq" where
  "new_eq_eh H v1 v2 s =
     (let n1 = get_enode H (ctx s) v1;
          n2 = get_enode H (ctx s) v2
      in
        if n1 \<noteq> n2
        then
          (case new_eq_len_concat H n1 n2
                  (s\<lparr>m_eqs := m_eqs s @ [(get_owner n1, get_owner n2, mk_leaf H (ctx s) (n1, n2))]\<rparr>) of
             Inl err \<Rightarrow> Inl err
           | Inr s1 \<Rightarrow> new_eq_len_concat H n2 n1 s1)
        else Inr s)"

definition new_diseq_eh :: "'h host \<Rightarrow> theory_var \<Rightarrow> theory_var \<Rightarrow> 'h theory_seq \<Rightarrow> 'h theory_seq" where
  "new_diseq_eh H v1 v2 s =
     (let e1 = get_owner (get_enode H (ctx s) v1);
          e2 = get_owner (get_enode H (ctx s) v2);
          s1 = (ts_push Push_back_ineqs s)\<lparr>m_ineqs := m_ineqs s @ [mk_eq_atom H e1 e2]\<rparr>
      in s1\<lparr>m_exclude := ex_update H e1 e2 (m_exclude s1)\<rparr>)"

text \<open>
  \<^verbatim>\<open>push_scope_eh\<close> opens a scope in every store, records the axiom cursor in the new
  scope and pushes a copy of the current frame.
\<close>

definition push_scope_eh :: "'h host \<Rightarrow> 'h theory_seq \<Rightarrow> 'h theory_seq" where
  "push_scope_eh H s =
     (let s1 = call H Theory_push_scope s;
          s2 = s1\<lparr>m_rep := sm_push_scope (m_rep s1)\<rparr>;
          s3 = s2\<lparr>m_exclude := ex_push_scope (m_exclude s2)\<rparr>;
          s4 = call H Dm_push_scope s3;
          s5 = ts_push_scope s4;
          s6 = ts_push (Value_trail_axioms_head (m_axioms_head s5)) s5
      in s6\<lparr>m_eqs_stack := m_eqs_stack s6 @ [m_eqs s6]\<rparr>)"

text \<open>
  The loop at the end of \<^verbatim>\<open>pop_scope_eh\<close> pops one frame for each scope; popping more
  frames than were pushed leaves the range of the stack.
\<close>

definition frames_pop :: "nat \<Rightarrow> 'h theory_seq \<Rightarrow> error + 'h theory_seq" where
  "frames_pop num_scopes s =
     (if num_scopes = 0 then Inr s
      else if num_scopes > length (m_eqs_stack s) then Inl Out_Of_Range
      else Inr (s\<lparr>m_eqs := m_eqs_stack s ! (length (m_eqs_stack s) - num_scopes),
                   m_eqs_stack := take (length (m_eqs_stack s) - num_scopes) (m_eqs_stack s)\<rparr>))"

definition pop_scope_eh :: "'h host \<Rightarrow> nat \<Rightarrow> 'h theory_seq \<Rightarrow> error + 'h theory_seq" where
  "pop_scope_eh H num_scopes s =
     (case ts_pop_scope num_scopes s of
        Inl err \<Rightarrow> Inl err
      | Inr s1 \<Rightarrow>
          let s2 = call H (Dm_pop_scope num_scopes) (call H (Theory_pop_scope num_scopes) s1)
          in (case sm_pop_scope num_scopes (m_rep s2) of
                Inl err \<Rightarrow> Inl err
              | Inr rep \<Rightarrow>
                  (case ex_pop_scope num_scopes (m_exclude s2) of
                     Inl err \<Rightarrow> Inl err
                   | Inr ex \<Rightarrow> frames_pop num_scopes (s2\<lparr>m_rep := rep, m_exclude := ex\<rparr>))))"

text \<open>The body of \<^verbatim>\<open>restart_eh\<close> is compiled out.\<close>

definition restart_eh :: "'h theory_seq \<Rightarrow> 'h theory_seq" where
  "restart_eh s = s"

definition relevant_eh :: "'h host \<Rightarrow> expr \<Rightarrow> 'h theory_seq \<Rightarrow> error + 'h theory_seq" where
  "relevant_eh H n s = (if is_length n then add_len_axiom H n s else Inr s)"

section \<open>Runs of the solver\<close>

text \<open>
  The calls that change the solver: the callbacks of the host, the axioms of the
  factory, and the operations of the single stores.
\<close>

datatype op =
    Op_internalize_term expr
  | Op_internalize_atom expr
  | Op_apply_sort_cnstr enode sort
  | Op_new_eq theory_var theory_var
  | Op_new_diseq theory_var theory_var
  | Op_assign bool_var bool
  | Op_relevant expr
  | Op_propagate
  | Op_final_check
  | Op_push_scope
  | Op_pop_scope nat
  | Op_restart
  | Op_init_model
  | Op_mk_value enode
  | Op_add_indexof_axiom expr
  | Op_add_replace_axiom expr
  | Op_add_len_concat_axiom expr
  | Op_add_extract_axiom expr
  | Op_create_axiom expr
  | Op_set_incomplete expr
  | Op_update expr expr enode_pair_dependency
  | Op_find expr
  | Op_exclude expr expr

fun run_op :: "'h host \<Rightarrow> nat \<Rightarrow> op \<Rightarrow> 'h theory_seq \<Rightarrow> error + 'h theory_seq" where
  "run_op H fuel (Op_internalize_term t) s = Inr (snd (internalize_term H t s))"
| "run_op H fuel (Op_internalize_atom a) s = Inr (snd (internalize_atom H a s))"
| "run_op H fuel (Op_apply_sort_cnstr n srt) s = Inr (apply_sort_cnstr H n srt s)"
| "run_op H fuel (Op_new_eq v1 v2) s = new_eq_eh H v1 v2 s"
| "run_op H fuel (Op_new_diseq v1 v2) s = Inr (new_diseq_eh H v1 v2 s)"
| "run_op H fuel (Op_assign v is_true) s = assign_eq H v is_true s"
| "run_op H fuel (Op_relevant n) s = relevant_eh H n s"
| "run_op H fuel Op_propagate s = Inr (propagate H s)"
| "run_op H fuel Op_final_check s =
     (case final_check_eh H fuel s of Inl err \<Rightarrow> Inl err | Inr (status, s1) \<Rightarrow> Inr s1)"
| "run_op H fuel Op_push_scope s = Inr (push_scope_eh H s)"
| "run_op H fuel (Op_pop_scope n) s = pop_scope_eh H n s"
| "run_op H fuel Op_restart s = Inr (restart_eh s)"
| "run_op H fuel Op_init_model s = Inr (init_model H s)"
| "run_op H fuel (Op_mk_value n) s =
     (case mk_value H fuel n s of Inl err \<Rightarrow> Inl err | Inr (e, s1) \<Rightarrow> Inr s1)"
| "run_op H fuel (Op_add_indexof_axiom i) s = add_indexof_axiom i s"
| "run_op H fuel (Op_add_replace_axiom r) s = add_replace_axiom r s"
| "run_op H fuel (Op_add_len_concat_axiom c) s = add_len_concat_axiom c s"
| "run_op H fuel (Op_add_extract_axiom e) s = add_extract_axiom e s"
| "run_op H fuel (Op_create_axiom e) s = Inr (create_axiom e s)"
| "run_op H fuel (Op_set_incomplete t) s = Inr (set_incomplete t s)"
| "run_op H fuel (Op_update e r d) s = Inr (s\<lparr>m_rep := update e r d (m_rep s)\<rparr>)"
| "run_op H fuel (Op_find e) s =
     (case find_sol fuel e (m_rep s) of Inl err \<Rightarrow> Inl err | Inr (found, rep) \<Rightarrow> Inr (s\<lparr>m_rep := rep\<rparr>))"
| "run_op H fuel (Op_exclude e r) s = Inr (s\<lparr>m_exclude := ex_update H e r (m_exclude s)\<rparr>)"

fun run_ops :: "'h host \<Rightarrow> nat \<Rightarrow> op list \<Rightarrow> 'h theory_seq \<Rightarrow> error + 'h theory_seq" where
  "run_ops H fuel [] s = Inr s"
| "run_ops H fuel (x # xs) s =
     (case run_op H fuel x s of Inl err \<Rightarrow> Inl err | Inr s1 \<Rightarrow> run_ops H fuel xs s1)"

text \<open>
  \<open>scope_depth d ops\<close> follows the scopes that \<open>ops\<close> opens and closes, from \<open>d\<close> open
  scopes: it is the number of scopes open at the end, and \<open>None\<close> when \<open>ops\<close> pops a
  scope that was open before the \<open>d\<close>.
\<close>

fun scope_depth :: "nat \<Rightarrow> op list \<Rightarrow> nat option" where
  "scope_depth d [] = Some d"
| "scope_depth d (Op_push_scope # ops) = scope_depth (d + 1) ops"
| "scope_depth d (Op_pop_scope n # ops) = (if n \<le> d then scope_depth (d - n) ops else None)"
| "scope_depth d (x # ops) = scope_depth d ops"

section \<open>A host for concrete runs\<close>

text \<open>
  A host that only logs the calls it receives: it is inconsistent once a conflict was
  set, a term is internalized once it was asked for, its rewriter only folds an
  equation between equal sides, and its reducer drops an equation between equal sides
  and returns any other equation as it is. \<open>vars\<close> lists the owners of the theory
  variables. The second argument of a call is evaluated first, as g++ does.
\<close>

fun is_conflict :: "host_call \<Rightarrow> bool" where
  "is_conflict (Set_conflict eqs) = True"
| "is_conflict c = False"

fun fold_eq :: "expr \<Rightarrow> expr" where
  "fold_eq (EqE a b) = (if a = b then TrueE else EqE a b)"
| "fold_eq e = e"

fun atoms :: "expr \<Rightarrow> expr list" where
  "atoms (Concat a b) = atoms a @ atoms b"
| "atoms e = [e]"

definition log_host :: "expr list \<Rightarrow> (host_call list) host" where
  "log_host vars =
     \<lparr>exec = (\<lambda>c h. h @ [c]),
      inconsistent = (\<lambda>h. list_ex is_conflict h),
      e_internalized = (\<lambda>h e. List.member h (Internalize e) \<or> List.member h (Mk_enode e)),
      is_attached_to_var = (\<lambda>h n. List.member h (Attach_th_var n)),
      get_th_var = (\<lambda>h n. 0),
      get_enode = (\<lambda>h v. Enode (if v < length vars then vars ! v else TrueE)),
      bool_var2enode = (\<lambda>h v. Enode (if v < length vars then vars ! v else TrueE)),
      get_root = (\<lambda>h n. n),
      class_of = (\<lambda>h n. [n]),
      enodes_of = (\<lambda>h f. []),
      get_fresh_value = (\<lambda>h srt. None),
      get_id = size,
      rewrite = fold_eq,
      reduce_eq = (\<lambda>l r. if l = r then Some [] else Some [(l, r)]),
      get_concat = atoms,
      mk_eq_atom = EqE,
      args_right_first = True\<rparr>"

definition vx :: expr where "vx = Uninterp ''x'' [] (Seq_sort Char_sort)"
definition vy :: expr where "vy = Uninterp ''y'' [] (Seq_sort Char_sort)"
definition vz :: expr where "vz = Uninterp ''z'' [] (Seq_sort Char_sort)"

definition dxy :: enode_pair_dependency where "dxy = Some (Leaf (Enode vx, Enode vy))"
definition dyz :: enode_pair_dependency where "dyz = Some (Leaf (Enode vy, Enode vz))"

text \<open>A solution map with the chain \<open>x \<rightarrow> y \<rightarrow> z\<close>, and one with the edge \<open>x \<rightarrow> y\<close> only.\<close>

definition sm_xyz :: solution_map where
  "sm_xyz = \<lparr>m_map = [vx \<mapsto> (vy, dxy), vy \<mapsto> (vz, dyz)], m_trail = [], m_limit = []\<rparr>"

definition sm_xy :: solution_map where
  "sm_xy = \<lparr>m_map = [vx \<mapsto> (vy, dxy)], m_trail = [], m_limit = []\<rparr>"

section \<open>Reading an axiom as a clause\<close>

text \<open>
  The truth of a formula under a valuation \<open>v\<close> of its atoms: negation, conjunction
  and disjunction are read as such, every other term is an atom.
\<close>

fun holds :: "(expr \<Rightarrow> bool) \<Rightarrow> expr \<Rightarrow> bool" where
  "holds v (NotE e) = (\<not> holds v e)"
| "holds v (AndE es) = list_all (holds v) es"
| "holds v (OrE es) = list_ex (holds v) es"
| "holds v TrueE = True"
| "holds v FalseE = False"
| "holds v e = v e"

text \<open>The solver with the solution \<open>x \<rightarrow> y\<close> recorded, on a host without variables.\<close>

definition st_xy :: "(host_call list) theory_seq" where
  "st_xy = (init [])\<lparr>m_rep := sm_xy\<rparr>"

text \<open>The solver after the constructor with the incompleteness flag set.\<close>

definition st_incomplete :: "(host_call list) theory_seq" where
  "st_incomplete = (init [])\<lparr>m_incomplete := True\<rparr>"

section \<open>Occurrences of a variable\<close>


text \<open>
  \<open>appears_below v t\<close>: \<open>v\<close> is reached from \<open>t\<close> along a path that goes through
  concatenations first and through left/right selectors after them.
\<close>

fun under_select :: "expr \<Rightarrow> expr \<Rightarrow> bool" where
  "under_select v (Skolem tag e1 e2 srt) =
     (v = Skolem tag e1 e2 srt \<or> ((tag = m_left_sym \<or> tag = m_right_sym) \<and> under_select v e1))"
| "under_select v t = (v = t)"

fun appears_below :: "expr \<Rightarrow> expr \<Rightarrow> bool" where
  "appears_below v (Concat a b) = (v = Concat a b \<or> appears_below v a \<or> appears_below v b)"
| "appears_below v t = under_select v t"

section \<open>What a call leaves alone\<close>

text \<open>
  \<open>sm_evolves sm sm'\<close>: the solution map \<open>sm'\<close> comes from \<open>sm\<close> by calls of
  \<^verbatim>\<open>update\<close>. \<open>quiet s s'\<close>: between \<open>s\<close> and \<open>s'\<close> the solution map was only
  updated, and the exclusion table, the frames below the current one, the
  inequations, the axioms and their cursor, the incompleteness flag and the trail
  stack are the same.
\<close>

definition apply_updates :: "(expr \<times> expr \<times> enode_pair_dependency) list \<Rightarrow> solution_map \<Rightarrow> solution_map" where
  "apply_updates us sm = fold (\<lambda>u. update (fst u) (fst (snd u)) (snd (snd u))) us sm"

definition sm_evolves :: "solution_map \<Rightarrow> solution_map \<Rightarrow> bool" where
  "sm_evolves sm sm' = (\<exists>us. sm' = apply_updates us sm)"

definition quiet :: "'h theory_seq \<Rightarrow> 'h theory_seq \<Rightarrow> bool" where
  "quiet s s' =
     (m_exclude s' = m_exclude s \<and> m_eqs_stack s' = m_eqs_stack s \<and> m_ineqs s' = m_ineqs s \<and>
      m_axioms s' = m_axioms s \<and> m_axioms_head s' = m_axioms_head s \<and>
      m_incomplete s' = m_incomplete s \<and> m_trail_stack s' = m_trail_stack s \<and>
      sm_evolves (m_rep s) (m_rep s'))"

text \<open>
  \<open>canon_step s s'\<close>: what a canonization changes. Beyond the updates of the solution
  map it calls the host only in model completion.
\<close>

definition canon_step :: "'h theory_seq \<Rightarrow> 'h theory_seq \<Rightarrow> bool" where
  "canon_step s s' =
     (quiet s s' \<and> m_eqs s' = m_eqs s \<and> m_stats s' = m_stats s \<and>
      m_branch_variable_head s' = m_branch_variable_head s \<and>
      m_model_completion s' = m_model_completion s \<and>
      (m_model_completion s \<or> ctx s' = ctx s))"

section \<open>Canonizing a list of atoms\<close>

text \<open>
  \<open>canon_all H fuel as s\<close> canonizes the atoms \<open>as\<close> one after the other, each from
  the empty dependency, as the loop of \<^verbatim>\<open>check_ineqs\<close> does, and returns their
  canonized forms with their witnesses.
\<close>

fun canon_all ::
  "'h host \<Rightarrow> nat \<Rightarrow> expr list \<Rightarrow> 'h theory_seq \<Rightarrow> error + ((expr \<times> enode_pair_dependency) list \<times> 'h theory_seq)" where
  "canon_all H fuel [] s = Inr ([], s)"
| "canon_all H fuel (a # as) s =
     (case canonize H fuel a None s of
        Inl err \<Rightarrow> Inl err
      | Inr (b, eqs, s1) \<Rightarrow>
          (case canon_all H fuel as s1 of
             Inl err \<Rightarrow> Inl err
           | Inr (bs, s2) \<Rightarrow> Inr ((b, eqs) # bs, s2)))"

text \<open>The solver with three inequations recorded, the second of which folds to true.\<close>

definition st_ineqs :: "(host_call list) theory_seq" where
  "st_ineqs = (init [])\<lparr>m_ineqs := [EqE vx vy, EqE vz vz, EqE vx vz]\<rparr>"

definition st_ineqs_ok :: "(host_call list) theory_seq" where
  "st_ineqs_ok = (init [])\<lparr>m_ineqs := [EqE vx vy, EqE vx vz]\<rparr>"

section \<open>The candidates of branching\<close>

text \<open>
  The alignments that \<^verbatim>\<open>find_branch_candidate\<close> goes through for a variable \<open>l\<close> and
  the atoms \<open>rs\<close> of the other side, in its order: the empty sequence; then for each
  atom the proper prefixes of a string atom, appended to the atoms before it, and the
  concatenation of the atoms up to it.
\<close>

fun candidates_from :: "expr \<Rightarrow> nat \<Rightarrow> expr list \<Rightarrow> expr list" where
  "candidates_from v0 j [] = []"
| "candidates_from v0 j (r # rs) =
     (case r of Str str \<Rightarrow> map (\<lambda>k. Concat v0 (Str (take k str))) [1..<length str] | _ \<Rightarrow> [])
     @ (if j = 0 then r else Concat v0 r)
     # candidates_from (if j = 0 then r else Concat v0 r) (j + 1) rs"

definition candidates :: "expr \<Rightarrow> expr list \<Rightarrow> expr list" where
  "candidates l rs = Empty (get_sort l) # candidates_from (Empty (get_sort l)) 0 rs"

text \<open>Proposing \<open>(l, c)\<close>: the calls of \<^verbatim>\<open>assume_equality\<close> for a pair that is not excluded.\<close>

definition propose :: "'h host \<Rightarrow> expr \<Rightarrow> expr \<Rightarrow> 'h theory_seq \<Rightarrow> 'h theory_seq" where
  "propose H l c s =
     call H (Assume_eq (Enode l) (Enode c))
       (if \<not> e_internalized H (ctx s) c then call H (Internalize c) s else s)"

text \<open>
  The enumeration as the specification words it: a candidate is skipped if the occurs
  check blocks it or if its pair is in the exclusion table, and the first candidate
  that is not skipped is proposed.
\<close>

definition spec_find_branch_candidate :: "'h host \<Rightarrow> expr \<Rightarrow> expr list \<Rightarrow> 'h theory_seq \<Rightarrow> bool \<times> 'h theory_seq" where
  "spec_find_branch_candidate H l rs s =
     (if \<not> is_var l then (False, s)
      else
        (case List.find (\<lambda>c. \<not> occurs l c \<and> \<not> ex_contains H (m_exclude s) l c) (candidates l rs) of
           None \<Rightarrow> (False, s)
         | Some c \<Rightarrow> (True, propose H l c s)))"

text \<open>
  A selector over a string literal as the variable, the literal as the first atom of
  the other side, and the pair of the variable and the empty sequence excluded.
\<close>

definition left_ab :: expr where
  "left_ab = Skolem ''left'' (Str ''ab'') None (Seq_sort Char_sort)"

definition st_excl :: "(host_call list) theory_seq" where
  "st_excl = (init [])\<lparr>m_exclude := ex_update (log_host []) left_ab (Empty (Seq_sort Char_sort))
                                     \<lparr>m_table = {}, ex_pairs = [], ex_limit = []\<rparr>\<rparr>"

text \<open>The pair of the variable \<open>x\<close> and the empty sequence excluded.\<close>

definition st_excl_x :: "(host_call list) theory_seq" where
  "st_excl_x = (init [])\<lparr>m_exclude := ex_update (log_host []) vx (Empty (Seq_sort Char_sort))
                                       \<lparr>m_table = {}, ex_pairs = [], ex_limit = []\<rparr>\<rparr>"

section \<open>Scopes\<close>

text \<open>
  The marks of the scopes of a store are in order and none lies beyond the end of the
  trail of the store. A mark of the trail stack points at the record of the axiom
  cursor that \<^verbatim>\<open>push_scope_eh\<close> pushes first in the new scope. All stores have the
  same number of scopes.
\<close>

definition sm_wf :: "solution_map \<Rightarrow> bool" where
  "sm_wf sm = sorted (m_limit sm @ [length (m_trail sm)])"

definition ex_wf :: "exclusion_table \<Rightarrow> bool" where
  "ex_wf ex = sorted (ex_limit ex @ [length (ex_pairs ex)])"

fun is_head_trail :: "trail \<Rightarrow> bool" where
  "is_head_trail (Value_trail_axioms_head old) = True"
| "is_head_trail t = False"

fun is_incomplete_trail :: "trail \<Rightarrow> bool" where
  "is_incomplete_trail (Value_trail_incomplete old) = True"
| "is_incomplete_trail t = False"

definition ts_wf :: "trail_stack \<Rightarrow> bool" where
  "ts_wf ts =
     (sorted_wrt (<) (ts_scopes ts) \<and>
      (\<forall>p \<in> set (ts_scopes ts). p < length (ts_trail ts) \<and> is_head_trail (ts_trail ts ! p)))"

definition wf :: "'h theory_seq \<Rightarrow> bool" where
  "wf s =
     (sm_wf (m_rep s) \<and> ex_wf (m_exclude s) \<and> ts_wf (m_trail_stack s) \<and>
      length (m_limit (m_rep s)) = length (m_eqs_stack s) \<and>
      length (ex_limit (m_exclude s)) = length (m_eqs_stack s) \<and>
      length (ts_scopes (m_trail_stack s)) = length (m_eqs_stack s))"

text \<open>The values that the trail stack restores.\<close>

definition trailed :: "'h theory_seq \<Rightarrow> bool \<times> expr list \<times> nat \<times> expr list" where
  "trailed s = (m_incomplete s, m_axioms s, m_axioms_head s, m_ineqs s)"

text \<open>
  The trail stack read as a function of the values it restores: \<open>undo_v\<close> is
  \<open>undo\<close> and \<open>ts_pop_v\<close> is \<open>ts_pop_scope\<close> on these values alone.
\<close>

fun undo_v :: "trail \<Rightarrow> bool \<times> expr list \<times> nat \<times> expr list \<Rightarrow> bool \<times> expr list \<times> nat \<times> expr list" where
  "undo_v (Value_trail_incomplete old) (i, a, h, q) = (old, a, h, q)"
| "undo_v (Value_trail_axioms_head old) (i, a, h, q) = (i, a, old, q)"
| "undo_v Push_back_axioms (i, a, h, q) = (i, butlast a, h, q)"
| "undo_v Push_back_ineqs (i, a, h, q) = (i, a, h, butlast q)"

definition ts_pop_v ::
  "nat \<Rightarrow> trail_stack \<times> (bool \<times> expr list \<times> nat \<times> expr list)
   \<Rightarrow> error + trail_stack \<times> (bool \<times> expr list \<times> nat \<times> expr list)" where
  "ts_pop_v num_scopes tv =
     (if num_scopes = 0 then Inr tv
      else if num_scopes > length (ts_scopes (fst tv)) then Inl Out_Of_Range
      else if ts_scopes (fst tv) ! (length (ts_scopes (fst tv)) - num_scopes) > length (ts_trail (fst tv))
      then Inl Out_Of_Range
      else Inr (\<lparr>ts_trail = take (ts_scopes (fst tv) ! (length (ts_scopes (fst tv)) - num_scopes)) (ts_trail (fst tv)),
                 ts_scopes = take (length (ts_scopes (fst tv)) - num_scopes) (ts_scopes (fst tv))\<rparr>,
                fold undo_v
                  (rev (drop (ts_scopes (fst tv) ! (length (ts_scopes (fst tv)) - num_scopes)) (ts_trail (fst tv))))
                  (snd tv)))"

text \<open>
  \<open>pop_view k s\<close>: what popping \<open>k\<close> scopes makes of each store of \<open>s\<close>: the solution
  map, the exclusion table, the frames of pending equations, and the trail stack with
  the values it restores.
\<close>

definition pop_view ::
  "nat \<Rightarrow> 'h theory_seq \<Rightarrow>
   (error + solution_map) \<times> (error + exclusion_table) \<times> (error + eqs_frame \<times> eqs_frame list) \<times>
   (error + trail_stack \<times> (bool \<times> expr list \<times> nat \<times> expr list))" where
  "pop_view k s =
     (sm_pop_scope k (m_rep s),
      ex_pop_scope k (m_exclude s),
      map_sum id (\<lambda>s1. (m_eqs s1, m_eqs_stack s1)) (frames_pop k s),
      map_sum id (\<lambda>s1. (m_trail_stack s1, trailed s1)) (ts_pop_scope k s))"

text \<open>The frames of pending equations after popping \<open>k\<close> scopes.\<close>

definition frames_view :: "nat \<Rightarrow> 'h theory_seq \<Rightarrow> error + eqs_frame \<times> eqs_frame list" where
  "frames_view k s = map_sum id (\<lambda>s1. (m_eqs s1, m_eqs_stack s1)) (frames_pop k s)"

text \<open>
  A step within the current scope: one change of a field that no scope tracks, or one
  call of a store's operation that records its inverse, or a move of the axiom cursor
  (whose old value \<^verbatim>\<open>push_scope_eh\<close> has recorded).
\<close>

definition record_ineq :: "expr \<Rightarrow> 'h theory_seq \<Rightarrow> 'h theory_seq" where
  "record_ineq e s = (ts_push Push_back_ineqs s)\<lparr>m_ineqs := m_ineqs s @ [e]\<rparr>"

inductive step :: "'h host \<Rightarrow> 'h theory_seq \<Rightarrow> 'h theory_seq \<Rightarrow> bool" where
  step_ctx: "step H s (s\<lparr>ctx := c\<rparr>)"
| step_eqs: "step H s (s\<lparr>m_eqs := f\<rparr>)"
| step_stats: "step H s (s\<lparr>m_stats := st\<rparr>)"
| step_branch_head: "step H s (s\<lparr>m_branch_variable_head := k\<rparr>)"
| step_model_completion: "step H s (s\<lparr>m_model_completion := b\<rparr>)"
| step_update: "step H s (s\<lparr>m_rep := update e r d (m_rep s)\<rparr>)"
| step_exclude: "step H s (s\<lparr>m_exclude := ex_update H e r (m_exclude s)\<rparr>)"
| step_incomplete: "step H s (set_incomplete t s)"
| step_axiom: "step H s (create_axiom e s)"
| step_ineq: "step H s (record_ineq e s)"
| step_axioms_head: "step H s (s\<lparr>m_axioms_head := h\<rparr>)"

definition in_scope :: "'h host \<Rightarrow> 'h theory_seq \<Rightarrow> 'h theory_seq \<Rightarrow> bool" where
  "in_scope H = (step H)\<^sup>*\<^sup>*"

fun scope_op :: "op \<Rightarrow> bool" where
  "scope_op Op_push_scope = True"
| "scope_op (Op_pop_scope n) = True"
| "scope_op x = False"

section \<open>The incompleteness flag within a scope\<close>

text \<open>
  \<open>flag_kept p d s\<close>: the flag is set in \<open>s\<close>, the trail stack holds no record of the
  flag from position \<open>p\<close> on, and the marks of the last \<open>d\<close> scopes lie at \<open>p\<close> or
  beyond: popping up to \<open>d\<close> scopes replays no record of the flag.
\<close>

definition flag_kept :: "nat \<Rightarrow> nat \<Rightarrow> 'h theory_seq \<Rightarrow> bool" where
  "flag_kept p d s =
     (m_incomplete s \<and>
      d \<le> length (ts_scopes (m_trail_stack s)) \<and>
      list_all (\<lambda>m. p \<le> m) (drop (length (ts_scopes (m_trail_stack s)) - d) (ts_scopes (m_trail_stack s))) \<and>
      p \<le> length (ts_trail (m_trail_stack s)) \<and>
      list_all (\<lambda>t. \<not> is_incomplete_trail t) (drop p (ts_trail (m_trail_stack s))))"

section \<open>Calls that stay within the current scope\<close>

lemma sm_evolves_refl [simp]: "sm_evolves sm sm"
  unfolding sm_evolves_def apply_updates_def by (rule exI [of _ "[]"]) simp

lemma sm_evolves_update: "sm_evolves sm sm' \<Longrightarrow> sm_evolves sm (update e r d sm')"
proof -
  assume "sm_evolves sm sm'"
  then obtain us where "sm' = apply_updates us sm"
    by (auto simp: sm_evolves_def)
  then have "update e r d sm' = apply_updates (us @ [(e, r, d)]) sm"
    by (simp add: apply_updates_def)
  then show ?thesis
    unfolding sm_evolves_def by blast
qed

lemma sm_evolves_trans: "sm_evolves a b \<Longrightarrow> sm_evolves b c \<Longrightarrow> sm_evolves a c"
proof -
  assume "sm_evolves a b" and "sm_evolves b c"
  then obtain us vs where "b = apply_updates us a" and "c = apply_updates vs b"
    by (auto simp: sm_evolves_def)
  then have "c = apply_updates (us @ vs) a"
    by (simp add: apply_updates_def)
  then show ?thesis
    unfolding sm_evolves_def by blast
qed

lemma find_sol_evolves: "find_sol fuel e sm = Inr (x, sm') \<Longrightarrow> sm_evolves sm sm'"
  by (auto simp: find_sol_def sm_evolves_update split: sum.splits if_splits)

lemma quiet_refl [simp]: "quiet s s"
  by (simp add: quiet_def)

lemma quiet_trans: "quiet a b \<Longrightarrow> quiet b c \<Longrightarrow> quiet a c"
  by (auto simp: quiet_def intro: sm_evolves_trans)

lemma quiet_fields [simp]:
  "quiet s (s'\<lparr>ctx := c\<rparr>) = quiet s s'"
  "quiet s (s'\<lparr>m_eqs := f\<rparr>) = quiet s s'"
  "quiet s (s'\<lparr>m_stats := st\<rparr>) = quiet s s'"
  "quiet s (s'\<lparr>m_branch_variable_head := k\<rparr>) = quiet s s'"
  "quiet s (s'\<lparr>m_model_completion := b\<rparr>) = quiet s s'"
  "quiet s (call H hc s') = quiet s s'"
  by (simp_all add: quiet_def call_def)

lemma quiet_fields_left [simp]:
  "quiet (s\<lparr>ctx := c\<rparr>) s' = quiet s s'"
  "quiet (s\<lparr>m_eqs := f\<rparr>) s' = quiet s s'"
  "quiet (s\<lparr>m_stats := st\<rparr>) s' = quiet s s'"
  "quiet (s\<lparr>m_branch_variable_head := k\<rparr>) s' = quiet s s'"
  "quiet (s\<lparr>m_model_completion := b\<rparr>) s' = quiet s s'"
  "quiet (call H hc s) s' = quiet s s'"
  by (simp_all add: quiet_def call_def)

lemma quiet_update: "quiet s s' \<Longrightarrow> quiet s (s'\<lparr>m_rep := update e r d (m_rep s')\<rparr>)"
  by (simp add: quiet_def sm_evolves_update)

lemma quiet_rep: "quiet s s' \<Longrightarrow> sm_evolves (m_rep s') rep \<Longrightarrow> quiet s (s'\<lparr>m_rep := rep\<rparr>)"
  by (auto simp: quiet_def intro: sm_evolves_trans)

lemma canon_step_refl [simp]: "canon_step s s"
  by (simp add: canon_step_def)

lemma canon_step_trans: "canon_step a b \<Longrightarrow> canon_step b c \<Longrightarrow> canon_step a c"
  by (auto simp: canon_step_def intro: quiet_trans)

lemma canon_step_rep: "sm_evolves (m_rep s) rep \<Longrightarrow> canon_step s (s\<lparr>m_rep := rep\<rparr>)"
  by (simp add: canon_step_def quiet_rep)

lemma expand_var_step: "expand_var H e eqs s = (r, eqs', s') \<Longrightarrow> canon_step s s'"
  by (auto simp: expand_var_def Let_def canon_step_def call_def quiet_def sm_evolves_update
      split: if_splits option.splits)

lemma expand_args_step:
  assumes "\<And>e eqs s r eqs' s'. rec e eqs s = Inr (r, eqs', s') \<Longrightarrow> canon_step s s'"
    and "expand_args right_first rec mk e1 e2 eqs s = Inr (r, eqs', s')"
  shows "canon_step s s'"
proof -
  from assms(2) obtain ea eb ra rb eqs1 s1 where
    a: "rec ea eqs s = Inr (ra, eqs1, s1)" and b: "rec eb eqs1 s1 = Inr (rb, eqs', s')"
    by (cases right_first) (auto simp: expand_args_def split: sum.splits)
  from assms(1) [OF a] assms(1) [OF b] show ?thesis
    by (rule canon_step_trans)
qed

lemma expand_step:
  "expand H fuel e eqs s = Inr (r, eqs', s') \<Longrightarrow> canon_step s s'"
proof (induction fuel arbitrary: e eqs s r eqs' s')
  case 0
  then show ?case by simp
next
  case (Suc fuel)
  from Suc.prems obtain found rep where
    f: "find_sol (Suc fuel) e (m_rep s) = Inr (found, rep)"
    by (auto split: sum.splits)
  let ?eqs1 = "mk_join eqs (snd found)"
  let ?s1 = "s\<lparr>m_rep := rep\<rparr>"
  have first: "canon_step s ?s1"
    using find_sol_evolves [OF f] by (rule canon_step_rep)
  have "canon_step ?s1 s'"
  proof (cases "fst found")
    case (Concat e1 e2)
    with Suc.prems f have "expand_args (args_right_first H) (expand H fuel) Concat e1 e2 ?eqs1 ?s1 = Inr (r, eqs', s')"
      by (simp add: Let_def)
    then show ?thesis using Suc.IH by (rule expand_args_step [rotated])
  next
    case (EqE e1 e2)
    with Suc.prems f have "expand_args (args_right_first H) (expand H fuel) EqE e1 e2 ?eqs1 ?s1 = Inr (r, eqs', s')"
      by (simp add: Let_def)
    then show ?thesis using Suc.IH by (rule expand_args_step [rotated])
  next
    case (Prefix e1 e2)
    with Suc.prems f have "expand_args (args_right_first H) (expand H fuel) Prefix e1 e2 ?eqs1 ?s1 = Inr (r, eqs', s')"
      by (simp add: Let_def)
    then show ?thesis using Suc.IH by (rule expand_args_step [rotated])
  next
    case (Suffix e1 e2)
    with Suc.prems f have "expand_args (args_right_first H) (expand H fuel) Suffix e1 e2 ?eqs1 ?s1 = Inr (r, eqs', s')"
      by (simp add: Let_def)
    then show ?thesis using Suc.IH by (rule expand_args_step [rotated])
  next
    case (Contains e1 e2)
    with Suc.prems f have "expand_args (args_right_first H) (expand H fuel) Contains e1 e2 ?eqs1 ?s1 = Inr (r, eqs', s')"
      by (simp add: Let_def)
    then show ?thesis using Suc.IH by (rule expand_args_step [rotated])
  qed (use Suc.prems f in \<open>auto simp: Let_def dest: expand_var_step\<close>)
  with first show ?case by (rule canon_step_trans)
qed

lemma canonize_step:
  "canonize H fuel e eqs s = Inr (r, eqs', s') \<Longrightarrow> canon_step s s'"
  by (auto simp: canonize_def split: sum.splits dest: expand_step)

lemma canon_step_quiet: "canon_step s s' \<Longrightarrow> quiet s s'"
  by (simp add: canon_step_def)

lemma canonize_quiet:
  "canonize H fuel e eqs s = Inr (r, eqs', s') \<Longrightarrow> quiet s s'"
  by (blast dest: canonize_step canon_step_quiet)

lemma simplify_eq_quiet:
  assumes "simplify_eq H fuel l r deps s = Inr (b, s')"
  shows "quiet s s'"
proof -
  from assms obtain lh deps1 s1 rh deps2 s2 where
    c1: "canonize H fuel l deps s = Inr (lh, deps1, s1)" and
    c2: "canonize H fuel r deps1 s1 = Inr (rh, deps2, s2)"
    by (auto simp: simplify_eq_def split: sum.splits)
  have "quiet s s2"
    using canonize_quiet [OF c1] canonize_quiet [OF c2] by (rule quiet_trans)
  with assms c1 c2 show ?thesis
    by (auto simp: simplify_eq_def set_conflict_def split: option.splits if_splits)
qed

lemma add_solution_quiet: "quiet s s' \<Longrightarrow> quiet s (add_solution H l r deps s')"
  by (simp add: add_solution_def Let_def propagate_eq_def quiet_update)

lemma solve_unit_eq_quiet:
  assumes "solve_unit_eq H fuel l r deps s = Inr (b, s')"
  shows "quiet s s'"
proof -
  from assms obtain lh deps1 s1 rh deps2 s2 where
    c1: "canonize H fuel l deps s = Inr (lh, deps1, s1)" and
    c2: "canonize H fuel r deps1 s1 = Inr (rh, deps2, s2)"
    by (auto simp: solve_unit_eq_def split: sum.splits)
  have "quiet s s2"
    using canonize_quiet [OF c1] canonize_quiet [OF c2] by (rule quiet_trans)
  with assms c1 c2 show ?thesis
    by (auto simp: solve_unit_eq_def add_solution_quiet split: if_splits)
qed

lemma remove_eq_quiet: "quiet s (snd (remove_eq i s')) = quiet s s'"
  by (simp add: remove_eq_def)

lemma pre_process_loop_quiet:
  "pre_process_loop H fuel sos i change s = Inr (b, s') \<Longrightarrow> quiet s s'"
proof (induction fuel arbitrary: i change s)
  case 0
  then show ?case by simp
next
  case (Suc fuel)
  show ?case
  proof (cases "\<not> inconsistent H (ctx s) \<and> i < length (m_eqs s)")
    case False
    with Suc.prems show ?thesis by auto
  next
    case True
    let ?step = "if sos
               then simplify_eq H (Suc fuel) (fst (m_eqs s ! i)) (fst (snd (m_eqs s ! i))) (snd (snd (m_eqs s ! i))) s
               else solve_unit_eq H (Suc fuel) (fst (m_eqs s ! i)) (fst (snd (m_eqs s ! i))) (snd (snd (m_eqs s ! i))) s"
    from Suc.prems True obtain progress s1 where st: "?step = Inr (progress, s1)"
      by (auto split: sum.splits)
    then have q1: "quiet s s1"
      by (auto split: if_splits dest: simplify_eq_quiet solve_unit_eq_quiet)
    show ?thesis
    proof (cases progress)
      case True
      with Suc.prems \<open>\<not> inconsistent H (ctx s) \<and> i < length (m_eqs s)\<close> st
      have "pre_process_loop H fuel sos (fst (remove_eq i s1)) True (snd (remove_eq i s1)) = Inr (b, s')"
        by simp
      from Suc.IH [OF this] have "quiet s1 s'"
        by (simp add: remove_eq_def split: if_splits)
      with q1 show ?thesis by (rule quiet_trans)
    next
      case False
      with Suc.prems \<open>\<not> inconsistent H (ctx s) \<and> i < length (m_eqs s)\<close> st
      have "pre_process_loop H fuel sos (i + 1) change s1 = Inr (b, s')"
        by simp
      from q1 Suc.IH [OF this] show ?thesis by (rule quiet_trans)
    qed
  qed
qed

lemma pre_process_eqs_quiet:
  "pre_process_eqs H fuel sos s = Inr (b, s') \<Longrightarrow> quiet s s'"
  unfolding pre_process_eqs_def by (rule pre_process_loop_quiet)

lemma solve_loop_quiet:
  "solve_loop H fuel change s = Inr (b, s') \<Longrightarrow> quiet s s'"
proof (induction fuel arbitrary: change s)
  case 0
  then show ?case by simp
next
  case (Suc fuel)
  show ?case
  proof (cases "inconsistent H (ctx s)")
    case True
    with Suc.prems show ?thesis by simp
  next
    case False
    with Suc.prems obtain solved s1 where sb: "solve_basic_eqs H (Suc fuel) s = Inr (solved, s1)"
      by (auto split: sum.splits)
    then have q1: "quiet s s1"
      unfolding solve_basic_eqs_def by (rule pre_process_eqs_quiet)
    show ?thesis
    proof (cases solved)
      case True
      with Suc.prems False sb obtain simplified s2 where
        si: "simplify_eqs H (Suc fuel) s1 = Inr (simplified, s2)"
        and rest: "solve_loop H fuel True s2 = Inr (b, s')"
        by (auto split: sum.splits)
      from si have "quiet s1 s2"
        unfolding simplify_eqs_def by (rule pre_process_eqs_quiet)
      with q1 Suc.IH [OF rest] show ?thesis
        by (blast intro: quiet_trans)
    next
      case no: False
      with Suc.prems False sb q1 show ?thesis by simp
    qed
  qed
qed

lemma simplify_and_solve_eqs_quiet:
  assumes "simplify_and_solve_eqs H fuel s = Inr (b, s')"
  shows "quiet s s'"
proof -
  from assms obtain change s1 where
    a: "simplify_eqs H fuel s = Inr (change, s1)" and b: "solve_loop H fuel change s1 = Inr (b, s')"
    by (auto simp: simplify_and_solve_eqs_def split: sum.splits)
  from a have "quiet s s1"
    unfolding simplify_eqs_def by (rule pre_process_eqs_quiet)
  then show ?thesis
    using solve_loop_quiet [OF b] by (rule quiet_trans)
qed

lemma check_ineqs_loop_quiet:
  "check_ineqs_loop H fuel as s = Inr (b, s') \<Longrightarrow> quiet s s'"
proof (induction as arbitrary: s)
  case Nil
  then show ?case by simp
next
  case (Cons a as)
  from Cons.prems obtain c eqs s1 where c: "canonize H fuel a None s = Inr (c, eqs, s1)"
    by (auto split: sum.splits)
  then have q1: "quiet s s1" by (rule canonize_quiet)
  show ?case
  proof (cases "c = TrueE")
    case True
    with Cons.prems c q1 show ?thesis by (auto simp: propagate_lit_def)
  next
    case False
    with Cons.prems c have "check_ineqs_loop H fuel as s1 = Inr (b, s')" by simp
    from q1 Cons.IH [OF this] show ?thesis by (rule quiet_trans)
  qed
qed

lemma check_ineqs_quiet:
  "check_ineqs H fuel s = Inr (b, s') \<Longrightarrow> quiet s s'"
  unfolding check_ineqs_def by (rule check_ineqs_loop_quiet)

section \<open>Concrete runs\<close>

lemma find_sol_none: "m_map sm e = None \<Longrightarrow> find_sol (Suc n) e sm = Inr ((e, None), sm)"
  by (simp add: find_sol_def)

lemma check_ineqs_init: "check_ineqs (log_host []) 3 (init []) = Inr (True, init [])"
  by (simp add: check_ineqs_def init_def)

lemma simplify_and_solve_eqs_init: "simplify_and_solve_eqs (log_host []) 3 (init []) = Inr (False, init [])"
  by (simp add: simplify_and_solve_eqs_def simplify_eqs_def solve_basic_eqs_def pre_process_eqs_def
      numeral_3_eq_3 init_def log_host_def)

lemma branch_variable_init: "branch_variable (log_host []) (init []) = (False, init [])"
  by (simp add: branch_variable_def init_def)

lemma check_ineqs_st_incomplete: "check_ineqs (log_host []) 3 st_incomplete = Inr (True, st_incomplete)"
  by (simp add: check_ineqs_def init_def st_incomplete_def)

lemma simplify_and_solve_eqs_st_incomplete:
  "simplify_and_solve_eqs (log_host []) 3 st_incomplete = Inr (False, st_incomplete)"
  by (simp add: simplify_and_solve_eqs_def simplify_eqs_def solve_basic_eqs_def pre_process_eqs_def
      numeral_3_eq_3 init_def log_host_def st_incomplete_def)

lemma branch_variable_st_incomplete: "branch_variable (log_host []) st_incomplete = (False, st_incomplete)"
  by (simp add: branch_variable_def init_def st_incomplete_def)

lemma check_ineqs_st_ineqs:
  "check_ineqs (log_host []) 3 st_ineqs =
     Inr (False, st_ineqs\<lparr>ctx := [Internalize (EqE vz vz), Mark_as_relevant (Literal_of (EqE vz vz)),
                                   Assign (Literal_of (EqE vz vz)) []]\<rparr>)"
  by (simp add: check_ineqs_def canonize_def numeral_3_eq_3 find_sol_none expand_args_def expand_var_def
      mk_join_def st_ineqs_def init_def log_host_def vx_def vy_def vz_def propagate_lit_def call_def
      linearize_def)

section \<open>Popping the scopes of the solution map\<close>

lemma sorted_snoc_nth_le:
  "sorted (xs @ [n]) \<Longrightarrow> i < length xs \<Longrightarrow> xs ! i \<le> n"
  by (simp add: sorted_append)

lemma sorted_snoc_take:
  "sorted (xs @ [n]) \<Longrightarrow> i < length xs \<Longrightarrow> sorted (take i xs @ [xs ! i])"
proof -
  assume s: "sorted (xs @ [n])" and i: "i < length xs"
  then have sx: "sorted xs" by (simp add: sorted_append)
  have "\<forall>x \<in> set (take i xs). x \<le> xs ! i"
  proof
    fix x assume "x \<in> set (take i xs)"
    then obtain j where j: "j < i" and x: "x = xs ! j"
      using i by (auto simp: in_set_conv_nth)
    with sx i show "x \<le> xs ! i"
      by (simp add: sorted_nth_mono)
  qed
  moreover from sx have "sorted (take i xs)"
    by (rule sorted_wrt_take)
  ultimately show ?thesis
    by (simp add: sorted_append)
qed

lemma drop_take_drop:
  "a \<le> b \<Longrightarrow> drop a (take b xs) @ drop b xs = drop a xs"
proof -
  assume ab: "a \<le> b"
  have "drop a xs = drop a (take b xs @ drop b xs)"
    by simp
  also have "\<dots> = drop a (take b xs) @ drop (a - length (take b xs)) (drop b xs)"
    by (rule drop_append)
  also have "drop (a - length (take b xs)) (drop b xs) = drop b xs"
    using ab by (cases "b \<le> length xs") (simp_all add: min_def)
  finally show ?thesis by simp
qed

lemma sm_update_trail:
  "\<exists>ext. m_trail (update e r d sm) = m_trail sm @ ext
       \<and> fold sm_undo (rev ext) (m_map (update e r d sm)) = m_map sm"
proof (cases "m_map sm e")
  case None
  then have "m_trail (update e r d sm) = m_trail sm @ [(INS, e, r, d)]"
    and "fold sm_undo (rev [(INS, e, r, d)]) (m_map (update e r d sm)) = m_map sm"
    by (auto simp: update_def add_trail_def)
  then show ?thesis by blast
next
  case (Some v)
  obtain r0 d0 where v: "v = (r0, d0)" by (cases v)
  with Some have "m_trail (update e r d sm) = m_trail sm @ [(DEL, e, r0, d0), (INS, e, r, d)]"
    and "fold sm_undo (rev [(DEL, e, r0, d0), (INS, e, r, d)]) (m_map (update e r d sm)) = m_map sm"
    by (auto simp: update_def add_trail_def)
  then show ?thesis by blast
qed

lemma sm_update_limit [simp]: "m_limit (update e r d sm) = m_limit sm"
  by (simp add: update_def add_trail_def Let_def split: option.splits)

lemma sm_update_wf: "sm_wf sm \<Longrightarrow> sm_wf (update e r d sm)"
proof -
  assume w: "sm_wf sm"
  obtain ext where "m_trail (update e r d sm) = m_trail sm @ ext"
    using sm_update_trail by blast
  with w show ?thesis
    by (auto simp: sm_wf_def sorted_append)
qed

lemma sm_pop_update:
  assumes "sm_wf sm" and "1 \<le> k"
  shows "sm_pop_scope k (update e r d sm) = sm_pop_scope k sm"
proof (cases "k > length (m_limit sm)")
  case True
  with assms show ?thesis by (simp add: sm_pop_scope_def)
next
  case False
  let ?start = "m_limit sm ! (length (m_limit sm) - k)"
  from False assms have "length (m_limit sm) - k < length (m_limit sm)" by simp
  with assms(1) have le: "?start \<le> length (m_trail sm)"
    unfolding sm_wf_def by (rule sorted_snoc_nth_le)
  obtain ext where t: "m_trail (update e r d sm) = m_trail sm @ ext"
    and u: "fold sm_undo (rev ext) (m_map (update e r d sm)) = m_map sm"
    using sm_update_trail by blast
  have "update e r d sm\<lparr>m_map := fold sm_undo (rev (drop ?start (m_trail sm @ ext))) (m_map (update e r d sm)),
                         m_trail := take ?start (m_trail sm @ ext),
                         m_limit := take (length (m_limit sm) - k) (m_limit sm)\<rparr>
      = sm\<lparr>m_map := fold sm_undo (rev (drop ?start (m_trail sm))) (m_map sm),
            m_trail := take ?start (m_trail sm),
            m_limit := take (length (m_limit sm) - k) (m_limit sm)\<rparr>"
    using le u by (simp add: update_def add_trail_def Let_def split: option.splits)
  with False assms le t show ?thesis
    by (simp add: sm_pop_scope_def Let_def)
qed

lemma sm_evolves_pop:
  "sm_evolves sm sm' \<Longrightarrow> sm_wf sm \<Longrightarrow>
   sm_wf sm' \<and> m_limit sm' = m_limit sm \<and> (1 \<le> k \<longrightarrow> sm_pop_scope k sm' = sm_pop_scope k sm)"
proof -
  assume "sm_evolves sm sm'" and w: "sm_wf sm"
  then obtain us where "sm' = apply_updates us sm"
    by (auto simp: sm_evolves_def)
  moreover have "sm_wf (apply_updates us sm) \<and> m_limit (apply_updates us sm) = m_limit sm \<and>
      (1 \<le> k \<longrightarrow> sm_pop_scope k (apply_updates us sm) = sm_pop_scope k sm)"
    using w
  proof (induction us rule: rev_induct)
    case Nil
    then show ?case by (simp add: apply_updates_def)
  next
    case (snoc u us)
    have "apply_updates (us @ [u]) sm = update (fst u) (fst (snd u)) (snd (snd u)) (apply_updates us sm)"
      by (simp add: apply_updates_def)
    with snoc show ?case
      by (simp add: sm_update_wf sm_pop_update)
  qed
  ultimately show ?thesis by simp
qed

lemma sm_push_wf: "sm_wf sm \<Longrightarrow> sm_wf (sm_push_scope sm)"
  by (auto simp: sm_wf_def sm_push_scope_def sorted_append)

lemma sm_pop_push: "sm_pop_scope (Suc k) (sm_push_scope sm) = sm_pop_scope k sm"
proof (cases k)
  case 0
  then show ?thesis
    by (simp add: sm_pop_scope_def sm_push_scope_def)
next
  case (Suc j)
  show ?thesis
  proof (cases "k > length (m_limit sm)")
    case True
    with Suc show ?thesis by (simp add: sm_pop_scope_def sm_push_scope_def)
  next
    case False
    with Suc have "length (m_limit sm) - k < length (m_limit sm)" by simp
    with Suc False show ?thesis
      by (simp add: sm_pop_scope_def sm_push_scope_def nth_append Let_def)
  qed
qed

lemma sm_pop_scope_eq:
  "0 < k \<Longrightarrow> k \<le> length (m_limit sm) \<Longrightarrow> m_limit sm ! (length (m_limit sm) - k) \<le> length (m_trail sm) \<Longrightarrow>
   sm_pop_scope k sm =
     Inr (sm\<lparr>m_map := fold sm_undo (rev (drop (m_limit sm ! (length (m_limit sm) - k)) (m_trail sm))) (m_map sm),
              m_trail := take (m_limit sm ! (length (m_limit sm) - k)) (m_trail sm),
              m_limit := take (length (m_limit sm) - k) (m_limit sm)\<rparr>)"
  unfolding sm_pop_scope_def Let_def by simp

lemma sm_pop_scope_Inr:
  "sm_pop_scope k sm = Inr sm1 \<Longrightarrow> 0 < k \<Longrightarrow>
   k \<le> length (m_limit sm) \<and> m_limit sm ! (length (m_limit sm) - k) \<le> length (m_trail sm)"
  unfolding sm_pop_scope_def Let_def by (simp split: if_splits)

lemma sm_pop_scope_range: "length (m_limit sm) < k \<Longrightarrow> sm_pop_scope k sm = Inl Out_Of_Range"
  unfolding sm_pop_scope_def by simp

lemma sm_pop_pop:
  assumes "sm_wf sm" and "sm_pop_scope j sm = Inr sm1"
  shows "sm_wf sm1 \<and> length (m_limit sm1) = length (m_limit sm) - j
         \<and> sm_pop_scope k sm1 = sm_pop_scope (j + k) sm"
proof (cases "j = 0")
  case True
  with assms show ?thesis by (simp add: sm_pop_scope_def)
next
  case False
  let ?L = "length (m_limit sm)"
  let ?sj = "m_limit sm ! (?L - j)"
  from False have j0: "0 < j" by simp
  from sm_pop_scope_Inr [OF assms(2) j0] have jL: "j \<le> ?L" and sj: "?sj \<le> length (m_trail sm)"
    by simp_all
  from assms(2) have sm1: "sm1 = sm\<lparr>m_map := fold sm_undo (rev (drop ?sj (m_trail sm))) (m_map sm),
                        m_trail := take ?sj (m_trail sm),
                        m_limit := take (?L - j) (m_limit sm)\<rparr>"
    unfolding sm_pop_scope_eq [OF j0 jL sj] by simp
  have lim1: "m_limit sm1 = take (?L - j) (m_limit sm)"
    and tr1: "m_trail sm1 = take ?sj (m_trail sm)"
    and mp1: "m_map sm1 = fold sm_undo (rev (drop ?sj (m_trail sm))) (m_map sm)"
    by (simp_all add: sm1)
  from False jL have idx: "?L - j < ?L" by simp
  have len: "length (m_limit sm1) = ?L - j"
    by (simp add: lim1)
  have ltr: "length (m_trail sm1) = ?sj"
    using sj by (simp add: tr1)
  have w1: "sm_wf sm1"
    using sorted_snoc_take [OF assms(1) [unfolded sm_wf_def] idx]
    unfolding sm_wf_def lim1 ltr .
  have "sm_pop_scope k sm1 = sm_pop_scope (j + k) sm"
  proof (cases "k = 0")
    case True
    with assms(2) show ?thesis by (simp add: sm_pop_scope_def)
  next
    case k: False
    then have k0: "0 < k" and jk0: "0 < j + k" by simp_all
    show ?thesis
    proof (cases "j + k > ?L")
      case True
      with k0 have "length (m_limit sm1) < k" unfolding len by arith
      then show ?thesis
        using True by (simp add: sm_pop_scope_range)
    next
      case le: False
      let ?i = "?L - (j + k)"
      let ?sk = "m_limit sm ! ?i"
      from le have jkL: "j + k \<le> ?L" by simp
      from le k have lt: "?i < ?L - j" by arith
      have i1: "length (m_limit sm1) - k = ?i" unfolding len by arith
      have k1: "k \<le> length (m_limit sm1)" unfolding len using le by arith
      have sorted: "sorted (m_limit sm)"
        using assms(1) by (simp add: sm_wf_def sorted_append)
      from lt idx have sk_sj: "?sk \<le> ?sj"
        using sorted by (simp add: sorted_nth_mono)
      have nth: "m_limit sm1 ! ?i = ?sk"
        unfolding lim1 using lt by simp
      have sk1: "m_limit sm1 ! (length (m_limit sm1) - k) \<le> length (m_trail sm1)"
        unfolding i1 nth ltr by (rule sk_sj)
      have sk: "?sk \<le> length (m_trail sm)"
        using sk_sj sj by simp
      have m: "fold sm_undo (rev (drop ?sk (take ?sj (m_trail sm))))
              (fold sm_undo (rev (drop ?sj (m_trail sm))) (m_map sm))
            = fold sm_undo (rev (drop ?sk (m_trail sm))) (m_map sm)"
        using drop_take_drop [OF sk_sj, of "m_trail sm"]
        by (metis fold_append rev_append comp_apply)
      have t: "take ?sk (take ?sj (m_trail sm)) = take ?sk (m_trail sm)"
        using sk_sj by (simp add: min_def)
      have l: "take ?i (take (?L - j) (m_limit sm)) = take ?i (m_limit sm)"
        using lt by (simp add: min_def)
      show ?thesis
        unfolding sm_pop_scope_eq [OF k0 k1 sk1] sm_pop_scope_eq [OF jk0 jkL sk] i1 nth
        unfolding lim1 tr1 mp1 m t l
        by (simp add: sm1)
    qed
  qed
  with w1 len show ?thesis by simp
qed

section \<open>Popping the scopes of the exclusion table\<close>

lemma ex_update_pairs:
  "\<exists>ext. ex_pairs (ex_update H e r ex) = ex_pairs ex @ ext
       \<and> m_table (ex_update H e r ex) = m_table ex \<union> set ext
       \<and> set ext \<inter> m_table ex = {}
       \<and> ex_limit (ex_update H e r ex) = ex_limit ex"
proof (cases "fst (ex_order H e r) \<noteq> snd (ex_order H e r) \<and> ex_order H e r \<notin> m_table ex")
  case True
  then have "ex_pairs (ex_update H e r ex) = ex_pairs ex @ [ex_order H e r]
       \<and> m_table (ex_update H e r ex) = m_table ex \<union> set [ex_order H e r]
       \<and> set [ex_order H e r] \<inter> m_table ex = {}
       \<and> ex_limit (ex_update H e r ex) = ex_limit ex"
    by (simp add: ex_update_def Let_def)
  then show ?thesis by blast
next
  case False
  then have "ex_pairs (ex_update H e r ex) = ex_pairs ex @ []
       \<and> m_table (ex_update H e r ex) = m_table ex \<union> set []
       \<and> set [] \<inter> m_table ex = {}
       \<and> ex_limit (ex_update H e r ex) = ex_limit ex"
    by (auto simp: ex_update_def Let_def)
  then show ?thesis by blast
qed

lemma ex_update_limit [simp]: "ex_limit (ex_update H e r ex) = ex_limit ex"
  using ex_update_pairs [of H e r ex] by auto

lemma ex_update_wf: "ex_wf ex \<Longrightarrow> ex_wf (ex_update H e r ex)"
proof -
  assume w: "ex_wf ex"
  obtain ext where "ex_pairs (ex_update H e r ex) = ex_pairs ex @ ext"
    using ex_update_pairs by blast
  with w show ?thesis
    by (auto simp: ex_wf_def sorted_append)
qed

lemma ex_pop_scope_eq:
  "0 < k \<Longrightarrow> k \<le> length (ex_limit ex) \<Longrightarrow> ex_limit ex ! (length (ex_limit ex) - k) \<le> length (ex_pairs ex) \<Longrightarrow>
   ex_pop_scope k ex =
     Inr (ex\<lparr>m_table := m_table ex - set (drop (ex_limit ex ! (length (ex_limit ex) - k)) (ex_pairs ex)),
              ex_pairs := take (ex_limit ex ! (length (ex_limit ex) - k)) (ex_pairs ex),
              ex_limit := take (length (ex_limit ex) - k) (ex_limit ex)\<rparr>)"
  unfolding ex_pop_scope_def Let_def by simp

lemma ex_pop_scope_Inr:
  "ex_pop_scope k ex = Inr ex1 \<Longrightarrow> 0 < k \<Longrightarrow>
   k \<le> length (ex_limit ex) \<and> ex_limit ex ! (length (ex_limit ex) - k) \<le> length (ex_pairs ex)"
  unfolding ex_pop_scope_def Let_def by (simp split: if_splits)

lemma ex_pop_scope_range: "length (ex_limit ex) < k \<Longrightarrow> ex_pop_scope k ex = Inl Out_Of_Range"
  unfolding ex_pop_scope_def by simp

lemma ex_pop_update:
  assumes "ex_wf ex" and "1 \<le> k"
  shows "ex_pop_scope k (ex_update H e r ex) = ex_pop_scope k ex"
proof (cases "k > length (ex_limit ex)")
  case True
  then show ?thesis by (simp add: ex_pop_scope_range)
next
  case False
  let ?ex' = "ex_update H e r ex"
  let ?start = "ex_limit ex ! (length (ex_limit ex) - k)"
  from False assms have k0: "0 < k" and kL: "k \<le> length (ex_limit ex)"
    and idx: "length (ex_limit ex) - k < length (ex_limit ex)" by simp_all
  from assms(1) idx have le: "?start \<le> length (ex_pairs ex)"
    unfolding ex_wf_def by (rule sorted_snoc_nth_le)
  obtain ext where p: "ex_pairs ?ex' = ex_pairs ex @ ext"
    and t: "m_table ?ex' = m_table ex \<union> set ext" and d: "set ext \<inter> m_table ex = {}"
    using ex_update_pairs by blast
  have kL': "k \<le> length (ex_limit ?ex')" using kL by simp
  have le': "ex_limit ?ex' ! (length (ex_limit ?ex') - k) \<le> length (ex_pairs ?ex')"
    using le by (simp add: p)
  have tab: "m_table ?ex' - set (drop ?start (ex_pairs ?ex')) = m_table ex - set (drop ?start (ex_pairs ex))"
    using le d unfolding p t by auto
  have prs: "take ?start (ex_pairs ?ex') = take ?start (ex_pairs ex)"
    using le unfolding p by simp
  have "?ex'\<lparr>m_table := m_table ex - set (drop ?start (ex_pairs ex)),
             ex_pairs := take ?start (ex_pairs ex),
             ex_limit := take (length (ex_limit ex) - k) (ex_limit ex)\<rparr>
      = ex\<lparr>m_table := m_table ex - set (drop ?start (ex_pairs ex)),
            ex_pairs := take ?start (ex_pairs ex),
            ex_limit := take (length (ex_limit ex) - k) (ex_limit ex)\<rparr>"
    by (simp add: ex_update_def Let_def)
  then show ?thesis
    unfolding ex_pop_scope_eq [OF k0 kL le] ex_pop_scope_eq [OF k0 kL' le']
    unfolding ex_update_limit tab prs by simp
qed

lemma ex_push_wf: "ex_wf ex \<Longrightarrow> ex_wf (ex_push_scope ex)"
  by (auto simp: ex_wf_def ex_push_scope_def sorted_append)

lemma ex_pop_push: "ex_pop_scope (Suc k) (ex_push_scope ex) = ex_pop_scope k ex"
proof (cases k)
  case 0
  then show ?thesis
    by (simp add: ex_pop_scope_def ex_push_scope_def)
next
  case (Suc j)
  show ?thesis
  proof (cases "k > length (ex_limit ex)")
    case True
    with Suc show ?thesis by (simp add: ex_pop_scope_def ex_push_scope_def)
  next
    case False
    with Suc have "length (ex_limit ex) - k < length (ex_limit ex)" by simp
    with Suc False show ?thesis
      by (simp add: ex_pop_scope_def ex_push_scope_def nth_append Let_def)
  qed
qed

lemma ex_pop_pop:
  assumes "ex_wf ex" and "ex_pop_scope j ex = Inr ex1"
  shows "ex_wf ex1 \<and> length (ex_limit ex1) = length (ex_limit ex) - j
         \<and> ex_pop_scope k ex1 = ex_pop_scope (j + k) ex"
proof (cases "j = 0")
  case True
  with assms show ?thesis by (simp add: ex_pop_scope_def)
next
  case False
  let ?L = "length (ex_limit ex)"
  let ?sj = "ex_limit ex ! (?L - j)"
  from False have j0: "0 < j" by simp
  from ex_pop_scope_Inr [OF assms(2) j0] have jL: "j \<le> ?L" and sj: "?sj \<le> length (ex_pairs ex)"
    by simp_all
  from assms(2) have ex1: "ex1 = ex\<lparr>m_table := m_table ex - set (drop ?sj (ex_pairs ex)),
                        ex_pairs := take ?sj (ex_pairs ex),
                        ex_limit := take (?L - j) (ex_limit ex)\<rparr>"
    unfolding ex_pop_scope_eq [OF j0 jL sj] by simp
  have lim1: "ex_limit ex1 = take (?L - j) (ex_limit ex)"
    and pr1: "ex_pairs ex1 = take ?sj (ex_pairs ex)"
    and tb1: "m_table ex1 = m_table ex - set (drop ?sj (ex_pairs ex))"
    by (simp_all add: ex1)
  from False jL have idx: "?L - j < ?L" by simp
  have len: "length (ex_limit ex1) = ?L - j"
    by (simp add: lim1)
  have lpr: "length (ex_pairs ex1) = ?sj"
    using sj by (simp add: pr1)
  have w1: "ex_wf ex1"
    using sorted_snoc_take [OF assms(1) [unfolded ex_wf_def] idx]
    unfolding ex_wf_def lim1 lpr .
  have "ex_pop_scope k ex1 = ex_pop_scope (j + k) ex"
  proof (cases "k = 0")
    case True
    with assms(2) show ?thesis by (simp add: ex_pop_scope_def)
  next
    case k: False
    then have k0: "0 < k" and jk0: "0 < j + k" by simp_all
    show ?thesis
    proof (cases "j + k > ?L")
      case True
      with k0 have "length (ex_limit ex1) < k" unfolding len by arith
      then show ?thesis
        using True by (simp add: ex_pop_scope_range)
    next
      case le: False
      let ?i = "?L - (j + k)"
      let ?sk = "ex_limit ex ! ?i"
      from le have jkL: "j + k \<le> ?L" by simp
      from le k have lt: "?i < ?L - j" by arith
      have i1: "length (ex_limit ex1) - k = ?i" unfolding len by arith
      have k1: "k \<le> length (ex_limit ex1)" unfolding len using le by arith
      have sorted: "sorted (ex_limit ex)"
        using assms(1) by (simp add: ex_wf_def sorted_append)
      from lt idx have sk_sj: "?sk \<le> ?sj"
        using sorted by (simp add: sorted_nth_mono)
      have nth: "ex_limit ex1 ! ?i = ?sk"
        unfolding lim1 using lt by simp
      have sk1: "ex_limit ex1 ! (length (ex_limit ex1) - k) \<le> length (ex_pairs ex1)"
        unfolding i1 nth lpr by (rule sk_sj)
      have sk: "?sk \<le> length (ex_pairs ex)"
        using sk_sj sj by simp
      have "set (drop ?sk (take ?sj (ex_pairs ex))) \<union> set (drop ?sj (ex_pairs ex)) = set (drop ?sk (ex_pairs ex))"
        using drop_take_drop [OF sk_sj, of "ex_pairs ex"] by (metis set_append)
      then have m: "m_table ex - set (drop ?sj (ex_pairs ex)) - set (drop ?sk (take ?sj (ex_pairs ex)))
            = m_table ex - set (drop ?sk (ex_pairs ex))"
        by blast
      have t: "take ?sk (take ?sj (ex_pairs ex)) = take ?sk (ex_pairs ex)"
        using sk_sj by (simp add: min_def)
      have l: "take ?i (take (?L - j) (ex_limit ex)) = take ?i (ex_limit ex)"
        using lt by (simp add: min_def)
      show ?thesis
        unfolding ex_pop_scope_eq [OF k0 k1 sk1] ex_pop_scope_eq [OF jk0 jkL sk] i1 nth
        unfolding lim1 pr1 tb1 m t l
        by (simp add: ex1)
    qed
  qed
  with w1 len show ?thesis by simp
qed

section \<open>Popping the scopes of the trail stack and of the frames\<close>

lemma undo_trailed: "trailed (undo t s) = undo_v t (trailed s)"
  by (cases t) (simp_all add: trailed_def)

lemma undo_other [simp]:
  "m_rep (undo t s) = m_rep s" "m_exclude (undo t s) = m_exclude s"
  "m_eqs (undo t s) = m_eqs s" "m_eqs_stack (undo t s) = m_eqs_stack s"
  "m_trail_stack (undo t s) = m_trail_stack s" "ctx (undo t s) = ctx s"
  "m_stats (undo t s) = m_stats s" "m_branch_variable_head (undo t s) = m_branch_variable_head s"
  "m_model_completion (undo t s) = m_model_completion s"
  by (cases t; simp)+

lemma fold_undo_trailed: "trailed (fold undo ts s) = fold undo_v ts (trailed s)"
  by (induction ts arbitrary: s) (simp_all add: undo_trailed)

lemma fold_undo_other [simp]:
  "m_rep (fold undo ts s) = m_rep s" "m_exclude (fold undo ts s) = m_exclude s"
  "m_eqs (fold undo ts s) = m_eqs s" "m_eqs_stack (fold undo ts s) = m_eqs_stack s"
  "m_trail_stack (fold undo ts s) = m_trail_stack s" "ctx (fold undo ts s) = ctx s"
  "m_stats (fold undo ts s) = m_stats s"
  "m_branch_variable_head (fold undo ts s) = m_branch_variable_head s"
  "m_model_completion (fold undo ts s) = m_model_completion s"
  by (induction ts arbitrary: s; simp)+

lemma trailed_fields [simp]:
  "trailed (s\<lparr>m_trail_stack := ts\<rparr>) = trailed s"
  "trailed (s\<lparr>m_rep := rep\<rparr>) = trailed s"
  "trailed (s\<lparr>m_exclude := ex\<rparr>) = trailed s"
  "trailed (s\<lparr>m_eqs := f\<rparr>) = trailed s"
  "trailed (s\<lparr>m_eqs_stack := fs\<rparr>) = trailed s"
  "trailed (s\<lparr>ctx := c\<rparr>) = trailed s"
  "trailed (s\<lparr>m_stats := st\<rparr>) = trailed s"
  "trailed (s\<lparr>m_branch_variable_head := n\<rparr>) = trailed s"
  "trailed (s\<lparr>m_model_completion := b\<rparr>) = trailed s"
  by (simp_all add: trailed_def)

lemma ts_pop_scope_pure:
  "map_sum id (\<lambda>s1. (m_trail_stack s1, trailed s1)) (ts_pop_scope k s)
     = ts_pop_v k (m_trail_stack s, trailed s)"
  unfolding ts_pop_scope_def ts_pop_v_def Let_def
  by (simp add: fold_undo_trailed)

lemma ts_pop_scope_other:
  assumes "ts_pop_scope k s = Inr s1"
  shows "m_rep s1 = m_rep s" "m_exclude s1 = m_exclude s" "m_eqs s1 = m_eqs s"
    "m_eqs_stack s1 = m_eqs_stack s" "ctx s1 = ctx s" "m_stats s1 = m_stats s"
    "m_branch_variable_head s1 = m_branch_variable_head s"
    "m_model_completion s1 = m_model_completion s"
  using assms unfolding ts_pop_scope_def Let_def by (auto split: if_splits)

lemma ts_pop_v_eq:
  "0 < k \<Longrightarrow> k \<le> length (ts_scopes ts) \<Longrightarrow> ts_scopes ts ! (length (ts_scopes ts) - k) \<le> length (ts_trail ts) \<Longrightarrow>
   ts_pop_v k (ts, v) =
     Inr (\<lparr>ts_trail = take (ts_scopes ts ! (length (ts_scopes ts) - k)) (ts_trail ts),
            ts_scopes = take (length (ts_scopes ts) - k) (ts_scopes ts)\<rparr>,
          fold undo_v (rev (drop (ts_scopes ts ! (length (ts_scopes ts) - k)) (ts_trail ts))) v)"
  unfolding ts_pop_v_def by simp

lemma ts_pop_v_Inr:
  "ts_pop_v k (ts, v) = Inr tv1 \<Longrightarrow> 0 < k \<Longrightarrow>
   k \<le> length (ts_scopes ts) \<and> ts_scopes ts ! (length (ts_scopes ts) - k) \<le> length (ts_trail ts)"
  unfolding ts_pop_v_def by (simp split: if_splits)

lemma ts_pop_v_range: "length (ts_scopes ts) < k \<Longrightarrow> ts_pop_v k (ts, v) = Inl Out_Of_Range"
  unfolding ts_pop_v_def by simp

lemma ts_wf_mark:
  "ts_wf ts \<Longrightarrow> i < length (ts_scopes ts) \<Longrightarrow>
   ts_scopes ts ! i < length (ts_trail ts) \<and> is_head_trail (ts_trail ts ! (ts_scopes ts ! i))"
  by (simp add: ts_wf_def)

lemma ts_wf_entry: "ts_wf ts \<Longrightarrow> ts_wf (ts\<lparr>ts_trail := ts_trail ts @ [t]\<rparr>)"
  by (auto simp: ts_wf_def nth_append less_Suc_eq)

lemma ts_pop_v_entry:
  assumes "ts_wf ts" and "1 \<le> k" and "undo_v t v' = v"
  shows "ts_pop_v k (ts\<lparr>ts_trail := ts_trail ts @ [t]\<rparr>, v') = ts_pop_v k (ts, v)"
proof (cases "k > length (ts_scopes ts)")
  case True
  then show ?thesis by (simp add: ts_pop_v_range)
next
  case False
  let ?ts' = "ts\<lparr>ts_trail := ts_trail ts @ [t]\<rparr>"
  let ?start = "ts_scopes ts ! (length (ts_scopes ts) - k)"
  from False assms have k0: "0 < k" and kL: "k \<le> length (ts_scopes ts)"
    and idx: "length (ts_scopes ts) - k < length (ts_scopes ts)" by simp_all
  from ts_wf_mark [OF assms(1) idx] have le: "?start \<le> length (ts_trail ts)" by simp
  have kL': "k \<le> length (ts_scopes ?ts')" using kL by simp
  have le': "ts_scopes ?ts' ! (length (ts_scopes ?ts') - k) \<le> length (ts_trail ?ts')"
    using le by simp
  have "fold undo_v (rev (drop ?start (ts_trail ts @ [t]))) v' = fold undo_v (rev (drop ?start (ts_trail ts))) v"
    using le assms(3) by simp
  moreover have "take ?start (ts_trail ts @ [t]) = take ?start (ts_trail ts)"
    using le by simp
  ultimately show ?thesis
    unfolding ts_pop_v_eq [OF k0 kL le] ts_pop_v_eq [OF k0 kL' le'] by simp
qed

lemma undo_v_nohead:
  "fst (undo_v t (i, a, h, q)) = fst (undo_v t (i, a, h', q))
   \<and> fst (snd (undo_v t (i, a, h, q))) = fst (snd (undo_v t (i, a, h', q)))
   \<and> snd (snd (snd (undo_v t (i, a, h, q)))) = snd (snd (snd (undo_v t (i, a, h', q))))"
  by (cases t) simp_all

lemma fold_undo_v_nohead:
  "\<exists>i' a' q' h1 h2. fold undo_v ts (i, a, h, q) = (i', a', h1, q') \<and> fold undo_v ts (i, a, h', q) = (i', a', h2, q')"
proof (induction ts arbitrary: i a h h' q)
  case Nil
  then show ?case by simp
next
  case (Cons t ts)
  obtain i1 a1 h1 q1 where u1: "undo_v t (i, a, h, q) = (i1, a1, h1, q1)"
    by (cases "undo_v t (i, a, h, q)")
  obtain i2 a2 h2 q2 where u2: "undo_v t (i, a, h', q) = (i2, a2, h2, q2)"
    by (cases "undo_v t (i, a, h', q)")
  from undo_v_nohead [of t i a h q h'] u1 u2 have "i2 = i1" "a2 = a1" "q2 = q1"
    by simp_all
  with u1 u2 Cons.IH [of i1 a1 h1 q1 h2] show ?case by simp
qed

lemma ts_pop_v_head:
  assumes "ts_wf ts" and "1 \<le> k"
  shows "ts_pop_v k (ts, (i, a, h', q)) = ts_pop_v k (ts, (i, a, h, q))"
proof (cases "k > length (ts_scopes ts)")
  case True
  then show ?thesis by (simp add: ts_pop_v_range)
next
  case False
  let ?start = "ts_scopes ts ! (length (ts_scopes ts) - k)"
  from False assms have k0: "0 < k" and kL: "k \<le> length (ts_scopes ts)"
    and idx: "length (ts_scopes ts) - k < length (ts_scopes ts)" by simp_all
  from ts_wf_mark [OF assms(1) idx] have lt: "?start < length (ts_trail ts)"
    and hd: "is_head_trail (ts_trail ts ! ?start)" by simp_all
  then obtain old where old: "ts_trail ts ! ?start = Value_trail_axioms_head old"
    by (cases "ts_trail ts ! ?start") simp_all
  from lt have d: "drop ?start (ts_trail ts) = Value_trail_axioms_head old # drop (Suc ?start) (ts_trail ts)"
    using old by (simp add: Cons_nth_drop_Suc [symmetric])
  let ?rest = "rev (drop (Suc ?start) (ts_trail ts))"
  obtain i' a' q' h1 h2 where
    "fold undo_v ?rest (i, a, h, q) = (i', a', h1, q')" and "fold undo_v ?rest (i, a, h', q) = (i', a', h2, q')"
    using fold_undo_v_nohead by blast
  then have "fold undo_v (rev (drop ?start (ts_trail ts))) (i, a, h', q)
      = fold undo_v (rev (drop ?start (ts_trail ts))) (i, a, h, q)"
    unfolding d by simp
  then show ?thesis
    using lt unfolding ts_pop_v_eq [OF k0 kL less_imp_le [OF lt]] by simp
qed

lemma ts_push_scope_wf:
  assumes "ts_wf ts"
  shows "ts_wf \<lparr>ts_trail = ts_trail ts @ [Value_trail_axioms_head h],
                ts_scopes = ts_scopes ts @ [length (ts_trail ts)]\<rparr>"
  using assms by (auto simp: ts_wf_def sorted_wrt_append nth_append less_Suc_eq)

lemma ts_pop_v_push_scope:
  assumes "ts_wf ts"
  shows "ts_pop_v (Suc k) (\<lparr>ts_trail = ts_trail ts @ [Value_trail_axioms_head h],
                             ts_scopes = ts_scopes ts @ [length (ts_trail ts)]\<rparr>, (i, a, h, q))
         = ts_pop_v k (ts, (i, a, h, q))"
proof (cases k)
  case 0
  then show ?thesis
    by (simp add: ts_pop_v_def)
next
  case (Suc n)
  let ?ts' = "\<lparr>ts_trail = ts_trail ts @ [Value_trail_axioms_head h],
               ts_scopes = ts_scopes ts @ [length (ts_trail ts)]\<rparr>"
  show ?thesis
  proof (cases "k > length (ts_scopes ts)")
    case True
    then show ?thesis by (simp add: ts_pop_v_range)
  next
    case False
    let ?start = "ts_scopes ts ! (length (ts_scopes ts) - k)"
    from False Suc have k0: "0 < k" and kL: "k \<le> length (ts_scopes ts)"
      and idx: "length (ts_scopes ts) - k < length (ts_scopes ts)" by simp_all
    from ts_wf_mark [OF assms idx] have le: "?start \<le> length (ts_trail ts)" by simp
    have i': "length (ts_scopes ?ts') - Suc k = length (ts_scopes ts) - k" by simp
    have n': "ts_scopes ?ts' ! (length (ts_scopes ts) - k) = ?start"
      using idx by (simp add: nth_append)
    have kL': "Suc k \<le> length (ts_scopes ?ts')" using kL by simp
    have le': "ts_scopes ?ts' ! (length (ts_scopes ?ts') - Suc k) \<le> length (ts_trail ?ts')"
      unfolding i' n' using le by simp
    have f: "fold undo_v (rev (drop ?start (ts_trail ?ts'))) (i, a, h, q)
        = fold undo_v (rev (drop ?start (ts_trail ts))) (i, a, h, q)"
      using le by simp
    have t: "take ?start (ts_trail ?ts') = take ?start (ts_trail ts)"
      using le by simp
    have s: "take (length (ts_scopes ts) - k) (ts_scopes ?ts') = take (length (ts_scopes ts) - k) (ts_scopes ts)"
      by simp
    show ?thesis
      unfolding ts_pop_v_eq [OF zero_less_Suc kL' le'] ts_pop_v_eq [OF k0 kL le] i' n' f t s ..
  qed
qed

lemma ts_pop_v_pop:
  assumes "ts_wf ts" and "ts_pop_v j (ts, v) = Inr (ts1, v1)"
  shows "ts_wf ts1 \<and> length (ts_scopes ts1) = length (ts_scopes ts) - j
         \<and> ts_pop_v k (ts1, v1) = ts_pop_v (j + k) (ts, v)"
proof (cases "j = 0")
  case True
  with assms show ?thesis by (simp add: ts_pop_v_def)
next
  case False
  let ?L = "length (ts_scopes ts)"
  let ?sj = "ts_scopes ts ! (?L - j)"
  from False have j0: "0 < j" by simp
  from ts_pop_v_Inr [OF assms(2) j0] have jL: "j \<le> ?L" and sj: "?sj \<le> length (ts_trail ts)"
    by simp_all
  from assms(2) have ts1: "ts1 = \<lparr>ts_trail = take ?sj (ts_trail ts), ts_scopes = take (?L - j) (ts_scopes ts)\<rparr>"
    and v1: "v1 = fold undo_v (rev (drop ?sj (ts_trail ts))) v"
    unfolding ts_pop_v_eq [OF j0 jL sj] by simp_all
  have sc1: "ts_scopes ts1 = take (?L - j) (ts_scopes ts)"
    and tr1: "ts_trail ts1 = take ?sj (ts_trail ts)"
    by (simp_all add: ts1)
  from False jL have idx: "?L - j < ?L" by simp
  have len: "length (ts_scopes ts1) = ?L - j"
    by (simp add: sc1)
  have ltr: "length (ts_trail ts1) = ?sj"
    using sj by (simp add: tr1)
  have strict: "sorted_wrt (<) (ts_scopes ts)"
    using assms(1) by (simp add: ts_wf_def)
  have below: "i < ?L - j \<Longrightarrow> ts_scopes ts ! i < ?sj" for i
    using strict idx by (simp add: sorted_wrt_nth_less)
  have w1: "ts_wf ts1"
    unfolding ts_wf_def sc1
  proof (intro conjI ballI)
    show "sorted_wrt (<) (take (?L - j) (ts_scopes ts))"
      using strict by (rule sorted_wrt_take)
  next
    fix p assume "p \<in> set (take (?L - j) (ts_scopes ts))"
    then obtain i where i: "i < ?L - j" and p: "p = ts_scopes ts ! i"
      using idx by (auto simp: in_set_conv_nth)
    from below [OF i] p have plt: "p < ?sj" by simp
    from i idx have "i < ?L" by simp
    from ts_wf_mark [OF assms(1) this] p have "is_head_trail (ts_trail ts ! p)" by simp
    with plt show "p < length (ts_trail ts1)" and "is_head_trail (ts_trail ts1 ! p)"
      unfolding ltr by (simp_all add: tr1)
  qed
  have "ts_pop_v k (ts1, v1) = ts_pop_v (j + k) (ts, v)"
  proof (cases "k = 0")
    case True
    with assms(2) show ?thesis by (simp add: ts_pop_v_def)
  next
    case k: False
    then have k0: "0 < k" and jk0: "0 < j + k" by simp_all
    show ?thesis
    proof (cases "j + k > ?L")
      case True
      with k0 have "length (ts_scopes ts1) < k" unfolding len by arith
      then show ?thesis
        using True by (simp add: ts_pop_v_range)
    next
      case le: False
      let ?i = "?L - (j + k)"
      let ?sk = "ts_scopes ts ! ?i"
      from le have jkL: "j + k \<le> ?L" by simp
      from le k have lt: "?i < ?L - j" by arith
      have i1: "length (ts_scopes ts1) - k = ?i" unfolding len by arith
      have k1: "k \<le> length (ts_scopes ts1)" unfolding len using le by arith
      from below [OF lt] have sk_sj: "?sk \<le> ?sj" by simp
      have nth: "ts_scopes ts1 ! ?i = ?sk"
        unfolding sc1 using lt by simp
      have sk1: "ts_scopes ts1 ! (length (ts_scopes ts1) - k) \<le> length (ts_trail ts1)"
        unfolding i1 nth ltr by (rule sk_sj)
      have sk: "?sk \<le> length (ts_trail ts)"
        using sk_sj sj by simp
      have m: "fold undo_v (rev (drop ?sk (take ?sj (ts_trail ts))))
              (fold undo_v (rev (drop ?sj (ts_trail ts))) v)
            = fold undo_v (rev (drop ?sk (ts_trail ts))) v"
        using drop_take_drop [OF sk_sj, of "ts_trail ts"]
        by (metis fold_append rev_append comp_apply)
      have t: "take ?sk (take ?sj (ts_trail ts)) = take ?sk (ts_trail ts)"
        using sk_sj by (simp add: min_def)
      have l: "take ?i (take (?L - j) (ts_scopes ts)) = take ?i (ts_scopes ts)"
        using lt by (simp add: min_def)
      show ?thesis
        unfolding ts_pop_v_eq [OF k0 k1 sk1] ts_pop_v_eq [OF jk0 jkL sk] i1 nth
        unfolding sc1 tr1 v1 m t l ..
    qed
  qed
  with w1 len show ?thesis by simp
qed

lemma frames_pop_eq:
  "0 < k \<Longrightarrow> k \<le> length (m_eqs_stack s) \<Longrightarrow>
   frames_pop k s = Inr (s\<lparr>m_eqs := m_eqs_stack s ! (length (m_eqs_stack s) - k),
                           m_eqs_stack := take (length (m_eqs_stack s) - k) (m_eqs_stack s)\<rparr>)"
  by (simp add: frames_pop_def)

lemma frames_view_stack:
  "1 \<le> k \<Longrightarrow> m_eqs_stack s' = m_eqs_stack s \<Longrightarrow> frames_view k s' = frames_view k s"
  by (simp add: frames_view_def frames_pop_def)

lemma frames_view_push:
  "frames_view (Suc k) (s\<lparr>m_eqs_stack := m_eqs_stack s @ [m_eqs s]\<rparr>) = frames_view k s"
proof (cases k)
  case 0
  then show ?thesis by (simp add: frames_view_def frames_pop_def)
next
  case (Suc n)
  show ?thesis
  proof (cases "k > length (m_eqs_stack s)")
    case True
    then show ?thesis by (simp add: frames_view_def frames_pop_def)
  next
    case False
    with Suc have "length (m_eqs_stack s) - k < length (m_eqs_stack s)" by simp
    with Suc False show ?thesis
      by (simp add: frames_view_def frames_pop_def nth_append)
  qed
qed

lemma frames_view_pop:
  assumes "frames_pop j s = Inr s1"
  shows "length (m_eqs_stack s1) = length (m_eqs_stack s) - j \<and> frames_view k s1 = frames_view (j + k) s"
proof (cases "j = 0")
  case True
  with assms show ?thesis by (simp add: frames_pop_def frames_view_def)
next
  case False
  let ?L = "length (m_eqs_stack s)"
  from False assms have jL: "j \<le> ?L"
    and s1: "s1 = s\<lparr>m_eqs := m_eqs_stack s ! (?L - j), m_eqs_stack := take (?L - j) (m_eqs_stack s)\<rparr>"
    by (auto simp: frames_pop_def split: if_splits)
  have st1: "m_eqs_stack s1 = take (?L - j) (m_eqs_stack s)" by (simp add: s1)
  have len: "length (m_eqs_stack s1) = ?L - j" by (simp add: st1)
  have "frames_view k s1 = frames_view (j + k) s"
  proof (cases "k = 0")
    case True
    with assms show ?thesis by (simp add: frames_view_def frames_pop_def)
  next
    case k: False
    then have k0: "0 < k" and jk0: "0 < j + k" by simp_all
    show ?thesis
    proof (cases "j + k > ?L")
      case True
      with k0 have "length (m_eqs_stack s1) < k" unfolding len by arith
      with True k0 jk0 show ?thesis
        by (simp add: frames_view_def frames_pop_def)
    next
      case le: False
      let ?i = "?L - (j + k)"
      from le have jkL: "j + k \<le> ?L" by simp
      from le k have lt: "?i < ?L - j" by arith
      have i1: "length (m_eqs_stack s1) - k = ?i" unfolding len by arith
      have k1: "k \<le> length (m_eqs_stack s1)" unfolding len using le by arith
      have nth: "m_eqs_stack s1 ! ?i = m_eqs_stack s ! ?i"
        unfolding st1 using lt by simp
      have l: "take ?i (m_eqs_stack s1) = take ?i (m_eqs_stack s)"
        unfolding st1 using lt by (simp add: min_def)
      show ?thesis
        unfolding frames_view_def frames_pop_eq [OF k0 k1] frames_pop_eq [OF jk0 jkL] i1
        by (simp add: nth l)
    qed
  qed
  with len show ?thesis by simp
qed

section \<open>Steps, pushes and pops on the whole state\<close>

lemma pop_view_alt:
  "pop_view k s =
     (sm_pop_scope k (m_rep s), ex_pop_scope k (m_exclude s), frames_view k s,
      ts_pop_v k (m_trail_stack s, trailed s))"
  by (simp add: pop_view_def frames_view_def ts_pop_scope_pure)

lemma frames_view_cong:
  "m_eqs s' = m_eqs s \<Longrightarrow> m_eqs_stack s' = m_eqs_stack s \<Longrightarrow> frames_view k s' = frames_view k s"
  by (simp add: frames_view_def frames_pop_def)

lemma frames_view_fields [simp]:
  "frames_view k (s\<lparr>ctx := c\<rparr>) = frames_view k s"
  "frames_view k (s\<lparr>m_stats := st\<rparr>) = frames_view k s"
  "frames_view k (s\<lparr>m_branch_variable_head := n\<rparr>) = frames_view k s"
  "frames_view k (s\<lparr>m_model_completion := b\<rparr>) = frames_view k s"
  "frames_view k (s\<lparr>m_rep := rep\<rparr>) = frames_view k s"
  "frames_view k (s\<lparr>m_exclude := ex\<rparr>) = frames_view k s"
  "frames_view k (s\<lparr>m_axioms_head := h\<rparr>) = frames_view k s"
  "frames_view k (s\<lparr>m_trail_stack := ts\<rparr>) = frames_view k s"
  "frames_view k (set_incomplete t s) = frames_view k s"
  "frames_view k (create_axiom e s) = frames_view k s"
  "frames_view k (record_ineq e s) = frames_view k s"
  by (simp_all add: frames_view_def frames_pop_def set_incomplete_def create_axiom_def
      record_ineq_def ts_push_def)

lemma frames_view_eqs [simp]:
  "1 \<le> k \<Longrightarrow> frames_view k (s\<lparr>m_eqs := f\<rparr>) = frames_view k s"
  by (simp add: frames_view_def frames_pop_def)

lemma set_incomplete_view:
  assumes "ts_wf (m_trail_stack s)"
  shows "ts_wf (m_trail_stack (set_incomplete t s))
         \<and> (1 \<le> k \<longrightarrow> ts_pop_v k (m_trail_stack (set_incomplete t s), trailed (set_incomplete t s))
                         = ts_pop_v k (m_trail_stack s, trailed s))"
proof (cases "m_incomplete s")
  case True
  with assms show ?thesis by (simp add: set_incomplete_def)
next
  case False
  have ts: "m_trail_stack (set_incomplete t s)
      = (m_trail_stack s)\<lparr>ts_trail := ts_trail (m_trail_stack s) @ [Value_trail_incomplete False]\<rparr>"
    using False by (simp add: set_incomplete_def ts_push_def)
  have tr: "undo_v (Value_trail_incomplete False) (trailed (set_incomplete t s)) = trailed s"
    using False by (simp add: set_incomplete_def ts_push_def trailed_def)
  show ?thesis
    unfolding ts using ts_wf_entry [OF assms] ts_pop_v_entry [OF assms _ tr] by simp
qed

lemma create_axiom_view:
  assumes "ts_wf (m_trail_stack s)"
  shows "ts_wf (m_trail_stack (create_axiom e s))
         \<and> (1 \<le> k \<longrightarrow> ts_pop_v k (m_trail_stack (create_axiom e s), trailed (create_axiom e s))
                         = ts_pop_v k (m_trail_stack s, trailed s))"
proof -
  have ts: "m_trail_stack (create_axiom e s)
      = (m_trail_stack s)\<lparr>ts_trail := ts_trail (m_trail_stack s) @ [Push_back_axioms]\<rparr>"
    by (simp add: create_axiom_def ts_push_def)
  have tr: "undo_v Push_back_axioms (trailed (create_axiom e s)) = trailed s"
    by (simp add: create_axiom_def ts_push_def trailed_def)
  show ?thesis
    unfolding ts using ts_wf_entry [OF assms] ts_pop_v_entry [OF assms _ tr] by simp
qed

lemma record_ineq_view:
  assumes "ts_wf (m_trail_stack s)"
  shows "ts_wf (m_trail_stack (record_ineq e s))
         \<and> (1 \<le> k \<longrightarrow> ts_pop_v k (m_trail_stack (record_ineq e s), trailed (record_ineq e s))
                         = ts_pop_v k (m_trail_stack s, trailed s))"
proof -
  have ts: "m_trail_stack (record_ineq e s)
      = (m_trail_stack s)\<lparr>ts_trail := ts_trail (m_trail_stack s) @ [Push_back_ineqs]\<rparr>"
    by (simp add: record_ineq_def ts_push_def)
  have tr: "undo_v Push_back_ineqs (trailed (record_ineq e s)) = trailed s"
    by (simp add: record_ineq_def ts_push_def trailed_def)
  show ?thesis
    unfolding ts using ts_wf_entry [OF assms] ts_pop_v_entry [OF assms _ tr] by simp
qed

lemma ts_prim_other [simp]:
  "m_rep (set_incomplete t s) = m_rep s" "m_exclude (set_incomplete t s) = m_exclude s"
  "m_eqs (set_incomplete t s) = m_eqs s" "m_eqs_stack (set_incomplete t s) = m_eqs_stack s"
  "ts_scopes (m_trail_stack (set_incomplete t s)) = ts_scopes (m_trail_stack s)"
  "m_rep (create_axiom e s) = m_rep s" "m_exclude (create_axiom e s) = m_exclude s"
  "m_eqs (create_axiom e s) = m_eqs s" "m_eqs_stack (create_axiom e s) = m_eqs_stack s"
  "ts_scopes (m_trail_stack (create_axiom e s)) = ts_scopes (m_trail_stack s)"
  "m_rep (record_ineq e s) = m_rep s" "m_exclude (record_ineq e s) = m_exclude s"
  "m_eqs (record_ineq e s) = m_eqs s" "m_eqs_stack (record_ineq e s) = m_eqs_stack s"
  "ts_scopes (m_trail_stack (record_ineq e s)) = ts_scopes (m_trail_stack s)"
  by (simp_all add: set_incomplete_def create_axiom_def record_ineq_def ts_push_def)

lemma view_fields:
  assumes "wf s"
  shows "wf (s\<lparr>ctx := c\<rparr>) \<and> (\<forall>k. 1 \<le> k \<longrightarrow> pop_view k (s\<lparr>ctx := c\<rparr>) = pop_view k s)"
    and "wf (s\<lparr>m_eqs := f\<rparr>) \<and> (\<forall>k. 1 \<le> k \<longrightarrow> pop_view k (s\<lparr>m_eqs := f\<rparr>) = pop_view k s)"
    and "wf (s\<lparr>m_stats := st\<rparr>) \<and> (\<forall>k. 1 \<le> k \<longrightarrow> pop_view k (s\<lparr>m_stats := st\<rparr>) = pop_view k s)"
    and "wf (s\<lparr>m_branch_variable_head := n\<rparr>)
         \<and> (\<forall>k. 1 \<le> k \<longrightarrow> pop_view k (s\<lparr>m_branch_variable_head := n\<rparr>) = pop_view k s)"
    and "wf (s\<lparr>m_model_completion := b\<rparr>)
         \<and> (\<forall>k. 1 \<le> k \<longrightarrow> pop_view k (s\<lparr>m_model_completion := b\<rparr>) = pop_view k s)"
  using assms by (simp_all add: wf_def pop_view_alt)

lemma view_update:
  assumes "wf s"
  shows "wf (s\<lparr>m_rep := update e r d (m_rep s)\<rparr>)
         \<and> (\<forall>k. 1 \<le> k \<longrightarrow> pop_view k (s\<lparr>m_rep := update e r d (m_rep s)\<rparr>) = pop_view k s)"
  using assms by (simp add: wf_def pop_view_alt sm_update_wf sm_pop_update)

lemma view_exclude:
  assumes "wf s"
  shows "wf (s\<lparr>m_exclude := ex_update H e r (m_exclude s)\<rparr>)
         \<and> (\<forall>k. 1 \<le> k \<longrightarrow> pop_view k (s\<lparr>m_exclude := ex_update H e r (m_exclude s)\<rparr>) = pop_view k s)"
  using assms by (simp add: wf_def pop_view_alt ex_update_wf ex_pop_update)

lemma view_set_incomplete:
  assumes "wf s"
  shows "wf (set_incomplete t s) \<and> (\<forall>k. 1 \<le> k \<longrightarrow> pop_view k (set_incomplete t s) = pop_view k s)"
proof -
  from assms have "ts_wf (m_trail_stack s)" by (simp add: wf_def)
  from set_incomplete_view [OF this, of t] assms show ?thesis
    by (simp add: wf_def pop_view_alt)
qed

lemma view_create_axiom:
  assumes "wf s"
  shows "wf (create_axiom e s) \<and> (\<forall>k. 1 \<le> k \<longrightarrow> pop_view k (create_axiom e s) = pop_view k s)"
proof -
  from assms have "ts_wf (m_trail_stack s)" by (simp add: wf_def)
  from create_axiom_view [OF this, of e] assms show ?thesis
    by (simp add: wf_def pop_view_alt)
qed

lemma view_record_ineq:
  assumes "wf s"
  shows "wf (record_ineq e s) \<and> (\<forall>k. 1 \<le> k \<longrightarrow> pop_view k (record_ineq e s) = pop_view k s)"
proof -
  from assms have "ts_wf (m_trail_stack s)" by (simp add: wf_def)
  from record_ineq_view [OF this, of e] assms show ?thesis
    by (simp add: wf_def pop_view_alt)
qed

lemma view_axioms_head:
  assumes "wf s"
  shows "wf (s\<lparr>m_axioms_head := h\<rparr>)
         \<and> (\<forall>k. 1 \<le> k \<longrightarrow> pop_view k (s\<lparr>m_axioms_head := h\<rparr>) = pop_view k s)"
proof -
  from assms have w: "ts_wf (m_trail_stack s)" by (simp add: wf_def)
  have "1 \<le> k \<Longrightarrow> ts_pop_v k (m_trail_stack s, trailed (s\<lparr>m_axioms_head := h\<rparr>))
      = ts_pop_v k (m_trail_stack s, trailed s)" for k
    unfolding trailed_def using ts_pop_v_head [OF w] by simp
  with assms show ?thesis
    by (simp add: wf_def pop_view_alt)
qed

lemma step_view:
  "step H s s' \<Longrightarrow> wf s \<Longrightarrow> wf s' \<and> (\<forall>k. 1 \<le> k \<longrightarrow> pop_view k s' = pop_view k s)"
proof (induction rule: step.induct)
  case (step_ctx H s c)
  then show ?case by (rule view_fields)
next
  case (step_eqs H s f)
  then show ?case by (rule view_fields)
next
  case (step_stats H s st)
  then show ?case by (rule view_fields)
next
  case (step_branch_head H s k)
  then show ?case by (rule view_fields)
next
  case (step_model_completion H s b)
  then show ?case by (rule view_fields)
next
  case (step_update H s e r d)
  then show ?case by (rule view_update)
next
  case (step_exclude H s e r)
  then show ?case by (rule view_exclude)
next
  case (step_incomplete H s t)
  then show ?case by (rule view_set_incomplete)
next
  case (step_axiom H s e)
  then show ?case by (rule view_create_axiom)
next
  case (step_ineq H s e)
  then show ?case by (rule view_record_ineq)
next
  case (step_axioms_head H s h)
  then show ?case by (rule view_axioms_head)
qed

lemma in_scope_view:
  assumes "in_scope H s s'" and "wf s"
  shows "wf s' \<and> (\<forall>k. 1 \<le> k \<longrightarrow> pop_view k s' = pop_view k s)"
  using assms unfolding in_scope_def
proof (induction rule: rtranclp_induct)
  case base
  then show ?case by simp
next
  case (step y z)
  from step.IH [OF step.prems] have wy: "wf y" and py: "\<And>k. 1 \<le> k \<Longrightarrow> pop_view k y = pop_view k s"
    by simp_all
  from step_view [OF step.hyps(2) wy] have wz: "wf z" and pz: "\<And>k. 1 \<le> k \<Longrightarrow> pop_view k z = pop_view k y"
    by simp_all
  show ?case
  proof (intro conjI allI impI)
    show "wf z" by (fact wz)
  next
    fix k :: nat
    assume "1 \<le> k"
    then show "pop_view k z = pop_view k s" using py [of k] pz [of k] by simp
  qed
qed

lemma step_depth: "step H s s' \<Longrightarrow> m_eqs_stack s' = m_eqs_stack s"
  by (induction rule: step.induct) simp_all

lemma in_scope_depth:
  "in_scope H s s' \<Longrightarrow> m_eqs_stack s' = m_eqs_stack s"
  unfolding in_scope_def
  by (induction rule: rtranclp_induct) (simp_all add: step_depth)

lemma in_scope_refl: "in_scope H s s"
  by (simp add: in_scope_def)

lemma in_scope_step: "step H s s' \<Longrightarrow> in_scope H s s'"
  by (simp add: in_scope_def)

lemma in_scope_trans: "in_scope H s s1 \<Longrightarrow> in_scope H s1 s2 \<Longrightarrow> in_scope H s s2"
  by (simp add: in_scope_def)

section \<open>Every call but a push or a pop stays within the current scope\<close>

lemma in_scope_then: "in_scope H s s1 \<Longrightarrow> step H s1 s2 \<Longrightarrow> in_scope H s s2"
  by (simp add: in_scope_def)

lemma apply_updates_snoc:
  "apply_updates (us @ [u]) sm = update (fst u) (fst (snd u)) (snd (snd u)) (apply_updates us sm)"
  by (simp add: apply_updates_def)

lemma in_scope_updates: "in_scope H s (s\<lparr>m_rep := apply_updates us (m_rep s)\<rparr>)"
proof (induction us rule: rev_induct)
  case Nil
  then show ?case by (simp add: apply_updates_def in_scope_refl)
next
  case (snoc u us)
  let ?s1 = "s\<lparr>m_rep := apply_updates us (m_rep s)\<rparr>"
  have "step H ?s1 (?s1\<lparr>m_rep := update (fst u) (fst (snd u)) (snd (snd u)) (m_rep ?s1)\<rparr>)"
    by (rule step_update)
  then have "step H ?s1 (s\<lparr>m_rep := apply_updates (us @ [u]) (m_rep s)\<rparr>)"
    by (simp add: apply_updates_snoc)
  with snoc show ?case by (rule in_scope_then)
qed

lemma quiet_in_scope:
  assumes "quiet s s'"
  shows "in_scope H s s'"
proof -
  from assms obtain us where us: "m_rep s' = apply_updates us (m_rep s)"
    by (auto simp: quiet_def sm_evolves_def)
  let ?s1 = "s\<lparr>m_rep := apply_updates us (m_rep s)\<rparr>"
  let ?s2 = "?s1\<lparr>ctx := ctx s'\<rparr>"
  let ?s3 = "?s2\<lparr>m_eqs := m_eqs s'\<rparr>"
  let ?s4 = "?s3\<lparr>m_stats := m_stats s'\<rparr>"
  let ?s5 = "?s4\<lparr>m_branch_variable_head := m_branch_variable_head s'\<rparr>"
  let ?s6 = "?s5\<lparr>m_model_completion := m_model_completion s'\<rparr>"
  have "in_scope H s ?s1" by (rule in_scope_updates)
  then have "in_scope H s ?s2" using step_ctx by (rule in_scope_then)
  then have "in_scope H s ?s3" using step_eqs by (rule in_scope_then)
  then have "in_scope H s ?s4" using step_stats by (rule in_scope_then)
  then have "in_scope H s ?s5" using step_branch_head by (rule in_scope_then)
  then have "in_scope H s ?s6" using step_model_completion by (rule in_scope_then)
  moreover have "?s6 = s'"
    using assms us by (intro theory_seq.equality) (simp_all add: quiet_def)
  ultimately show ?thesis by simp
qed

lemma quiet_call [simp]: "quiet s (call H c s') = quiet s s'"
  by (simp add: call_def)

lemma mk_var_quiet: "quiet s s' \<Longrightarrow> quiet s (snd (mk_var H n s'))"
  by (simp add: mk_var_def Let_def)

lemma internalize_arg_quiet: "quiet s s' \<Longrightarrow> quiet s (internalize_arg H arg s')"
  by (simp add: internalize_arg_def Let_def mk_var_quiet)

lemma fold_internalize_arg_quiet: "quiet s s' \<Longrightarrow> quiet s (fold (internalize_arg H) as s')"
  by (induction as arbitrary: s') (simp_all add: internalize_arg_quiet)

lemma internalize_term_shape:
  "\<exists>s2. quiet s s2 \<and> snd (internalize_term H t s) = (if supported_head t then s2 else set_incomplete t s2)"
proof -
  define s1 where "s1 = fold (internalize_arg H) (args_of t) s"
  define s2 where "s2 = (if is_bool t
             then call H (Set_enode_flag t) (call H (Set_var_theory t) (call H (Mk_bool_var t) s1))
             else snd (mk_var H (Enode t)
                    (case (if e_internalized H (ctx s1) t then Some (Enode t) else None) of
                       None \<Rightarrow> call H (Mk_enode t) s1 | Some n \<Rightarrow> s1)))"
  have q1: "quiet s s1" by (simp add: s1_def fold_internalize_arg_quiet)
  then have q2: "quiet s s2" by (simp add: s2_def mk_var_quiet split: option.splits)
  have "snd (internalize_term H t s) = (if supported_head t then s2 else set_incomplete t s2)"
    unfolding s2_def s1_def by (simp add: internalize_term_def Let_def supported_head_def)
  with q2 show ?thesis by blast
qed

lemma internalize_term_scope: "in_scope H s (snd (internalize_term H t s))"
proof -
  obtain s2 where q2: "quiet s s2"
    and eq: "snd (internalize_term H t s) = (if supported_head t then s2 else set_incomplete t s2)"
    using internalize_term_shape by blast
  from q2 have i2: "in_scope H s s2" by (rule quiet_in_scope)
  then have "in_scope H s (set_incomplete t s2)"
    using step_incomplete by (rule in_scope_then)
  with i2 show ?thesis unfolding eq by simp
qed

lemma new_eq_eh_quiet: "new_eq_eh H v1 v2 s = Inr s' \<Longrightarrow> quiet s s'"
  by (auto simp: new_eq_eh_def new_eq_len_concat_def f_len_def Let_def split: if_splits sum.splits)

lemma new_diseq_eh_scope: "in_scope H s (new_diseq_eh H v1 v2 s)"
proof -
  let ?e1 = "get_owner (get_enode H (ctx s) v1)"
  let ?e2 = "get_owner (get_enode H (ctx s) v2)"
  let ?s1 = "record_ineq (mk_eq_atom H ?e1 ?e2) s"
  have "in_scope H s ?s1" by (simp add: in_scope_step step_ineq)
  then have "in_scope H s (?s1\<lparr>m_exclude := ex_update H ?e1 ?e2 (m_exclude ?s1)\<rparr>)"
    using step_exclude by (rule in_scope_then)
  then show ?thesis by (simp add: new_diseq_eh_def Let_def record_ineq_def)
qed

lemma assign_eq_scope:
  assumes "assign_eq H v b s = Inr s'"
  shows "in_scope H s s'"
proof (cases b)
  case True
  with assms have "quiet s s'"
    by (auto simp: assign_eq_def Let_def propagate_eq_lit_def split: expr.splits)
  then show ?thesis by (rule quiet_in_scope)
next
  case False
  with assms have "s' = record_ineq (get_owner (bool_var2enode H (ctx s) v)) s"
    by (simp add: assign_eq_def Let_def record_ineq_def)
  then show ?thesis by (simp add: in_scope_step step_ineq)
qed

lemma create_axiom_scope: "in_scope H s s' \<Longrightarrow> in_scope H s (create_axiom e s')"
  by (erule in_scope_then) (rule step_axiom)

lemma add_len_axiom_scope: "add_len_axiom H n s = Inr s' \<Longrightarrow> in_scope H s s'"
  by (auto simp: add_len_axiom_def Let_def create_axiom_scope in_scope_refl split: expr.splits)

lemma relevant_eh_scope: "relevant_eh H n s = Inr s' \<Longrightarrow> in_scope H s s'"
  by (auto simp: relevant_eh_def add_len_axiom_scope in_scope_refl split: if_splits)

lemma add_indexof_axiom_scope: "add_indexof_axiom i s = Inr s' \<Longrightarrow> in_scope H s s'"
  by (auto simp: add_indexof_axiom_def Let_def create_axiom_scope in_scope_refl split: expr.splits)

lemma add_replace_axiom_scope: "add_replace_axiom r s = Inr s' \<Longrightarrow> in_scope H s s'"
  by (auto simp: add_replace_axiom_def Let_def create_axiom_scope in_scope_refl split: expr.splits)

lemma add_len_concat_axiom_scope: "add_len_concat_axiom c s = Inr s' \<Longrightarrow> in_scope H s s'"
  by (auto simp: add_len_concat_axiom_def Let_def create_axiom_scope in_scope_refl split: expr.splits)

lemma add_extract_axiom_scope: "add_extract_axiom e s = Inr s' \<Longrightarrow> in_scope H s s'"
  by (auto simp: add_extract_axiom_def split: expr.splits)

lemma assert_axiom_quiet: "quiet s s' \<Longrightarrow> quiet s (assert_axiom H e s')"
  by (simp add: assert_axiom_def)

lemma propagate_loop_scope: "in_scope H s s' \<Longrightarrow> in_scope H s (propagate_loop H es s')"
proof (induction es arbitrary: s')
  case Nil
  then show ?case by simp
next
  case (Cons e es)
  have "quiet s' (assert_axiom H e s')" by (simp add: assert_axiom_quiet)
  then have "in_scope H s' (assert_axiom H e s')" by (rule quiet_in_scope)
  then have "in_scope H s' ((assert_axiom H e s')\<lparr>m_axioms_head := m_axioms_head s' + 1\<rparr>)"
    using step_axioms_head by (rule in_scope_then)
  with Cons.prems have "in_scope H s ((assert_axiom H e s')\<lparr>m_axioms_head := m_axioms_head s' + 1\<rparr>)"
    by (rule in_scope_trans)
  from Cons.IH [OF this] Cons.prems show ?case by simp
qed

lemma propagate_scope: "in_scope H s (propagate H s)"
  unfolding propagate_def by (rule propagate_loop_scope) (rule in_scope_refl)

lemma assume_equality_quiet: "assume_equality H l r s = (b, s') \<Longrightarrow> quiet s s'"
  by (auto simp: assume_equality_def Let_def split: if_splits)

lemma branch_prefixes_quiet: "branch_prefixes H l v0 str ks s = (b, s') \<Longrightarrow> quiet s s'"
proof (induction ks arbitrary: s)
  case Nil
  then show ?case by simp
next
  case (Cons k ks)
  obtain b1 s1 where a: "assume_equality H l (Concat v0 (Str (take k str))) s = (b1, s1)"
    by (cases "assume_equality H l (Concat v0 (Str (take k str))) s")
  then have q1: "quiet s s1" by (rule assume_equality_quiet)
  show ?case
  proof (cases b1)
    case True
    with Cons.prems a q1 show ?thesis by simp
  next
    case False
    with Cons.prems a have "branch_prefixes H l v0 str ks s1 = (b, s')" by simp
    from q1 Cons.IH [OF this] show ?thesis by (rule quiet_trans)
  qed
qed

lemma branch_atoms_quiet: "branch_atoms H l v0 j rs s = (b, s') \<Longrightarrow> quiet s s'"
proof (induction rs arbitrary: s v0 j)
  case Nil
  then show ?case by simp
next
  case (Cons r rs)
  show ?case
  proof (cases "occurs l r")
    case True
    with Cons.prems show ?thesis by simp
  next
    case False
    obtain b1 s1 where p: "(case r of Str str \<Rightarrow> branch_prefixes H l v0 str [1..<length str] s | _ \<Rightarrow> (False, s)) = (b1, s1)"
      by (cases "(case r of Str str \<Rightarrow> branch_prefixes H l v0 str [1..<length str] s | _ \<Rightarrow> (False, s))")
    then have q1: "quiet s s1"
      by (cases r) (auto dest: branch_prefixes_quiet)
    show ?thesis
    proof (cases b1)
      case True
      with Cons.prems False p q1 show ?thesis by simp
    next
      case b1: False
      obtain b2 s2 where a: "assume_equality H l (if j = 0 then r else Concat v0 r) s1 = (b2, s2)"
        by (cases "assume_equality H l (if j = 0 then r else Concat v0 r) s1")
      then have q2: "quiet s1 s2" by (rule assume_equality_quiet)
      from q1 q2 have q12: "quiet s s2" by (rule quiet_trans)
      show ?thesis
      proof (cases b2)
        case True
        with Cons.prems False p b1 a q12 show ?thesis by simp
      next
        case b2: False
        with Cons.prems False p b1 a
        have "branch_atoms H l (if j = 0 then r else Concat v0 r) (j + 1) rs s2 = (b, s')" by simp
        from q12 Cons.IH [OF this] show ?thesis by (rule quiet_trans)
      qed
    qed
  qed
qed

lemma find_branch_candidate_quiet: "find_branch_candidate H l rs s = (b, s') \<Longrightarrow> quiet s s'"
proof -
  assume f: "find_branch_candidate H l rs s = (b, s')"
  show ?thesis
  proof (cases "is_var l")
    case False
    with f show ?thesis by (simp add: find_branch_candidate_def)
  next
    case True
    obtain b1 s1 where a: "assume_equality H l (Empty (get_sort l)) s = (b1, s1)"
      by (cases "assume_equality H l (Empty (get_sort l)) s")
    then have q1: "quiet s s1" by (rule assume_equality_quiet)
    show ?thesis
    proof (cases b1)
      case b1: True
      with f True a q1 show ?thesis by (simp add: find_branch_candidate_def)
    next
      case False
      with f True a have "branch_atoms H l (Empty (get_sort l)) 0 rs s1 = (b, s')"
        by (simp add: find_branch_candidate_def)
      from q1 branch_atoms_quiet [OF this] show ?thesis by (rule quiet_trans)
    qed
  qed
qed

lemma branch_loop_quiet: "branch_loop H sz is s = (b, s') \<Longrightarrow> quiet s s'"
proof (induction "is" arbitrary: s)
  case Nil
  then show ?case by simp
next
  case (Cons i "is")
  define k where "k = branch_index i (m_branch_variable_head s) sz"
  define ls where "ls = get_concat H (fst (m_eqs s ! k))"
  define rs where "rs = get_concat H (fst (snd (m_eqs s ! k)))"
  obtain b1 s1 where c1: "(if ls \<noteq> [] then find_branch_candidate H (hd ls) rs s else (False, s)) = (b1, s1)"
    by (cases "(if ls \<noteq> [] then find_branch_candidate H (hd ls) rs s else (False, s))")
  then have q1: "quiet s s1"
    by (auto dest: find_branch_candidate_quiet split: if_splits)
  obtain b2 s2 where c2: "(if rs \<noteq> [] then find_branch_candidate H (hd rs) ls s1 else (False, s1)) = (b2, s2)"
    by (cases "(if rs \<noteq> [] then find_branch_candidate H (hd rs) ls s1 else (False, s1))")
  then have q2: "quiet s1 s2"
    by (auto dest: find_branch_candidate_quiet split: if_splits)
  from q1 q2 have q12: "quiet s s2" by (rule quiet_trans)
  have unf: "branch_loop H sz (i # is) s =
      (if b1 then (True, s1\<lparr>m_branch_variable_head := k\<rparr>)
       else if b2 then (True, s2\<lparr>m_branch_variable_head := k\<rparr>)
       else branch_loop H sz is s2)"
    using c1 c2 unfolding k_def ls_def rs_def by (simp add: Let_def)
  show ?case
  proof (cases "b1 \<or> b2")
    case True
    with Cons.prems q1 q12 show ?thesis unfolding unf by (auto split: if_splits)
  next
    case False
    with Cons.prems have "branch_loop H sz is s2 = (b, s')" unfolding unf by simp
    from q12 Cons.IH [OF this] show ?thesis by (rule quiet_trans)
  qed
qed

lemma branch_variable_quiet: "branch_variable H s = (b, s') \<Longrightarrow> quiet s s'"
  unfolding branch_variable_def by (rule branch_loop_quiet)

lemma final_check_eh_quiet:
  assumes "final_check_eh H fuel s = Inr (st, s')"
  shows "quiet s s'"
proof -
  from assms obtain ok s1 where c: "check_ineqs H fuel s = Inr (ok, s1)"
    by (auto simp: final_check_eh_def split: sum.splits)
  then have q1: "quiet s s1" by (rule check_ineqs_quiet)
  show ?thesis
  proof (cases ok)
    case False
    with assms c q1 show ?thesis by (simp add: final_check_eh_def)
  next
    case ok: True
    with assms c obtain change s2 where e: "simplify_and_solve_eqs H fuel s1 = Inr (change, s2)"
      by (auto simp: final_check_eh_def split: sum.splits)
    then have "quiet s1 s2" by (rule simplify_and_solve_eqs_quiet)
    with q1 have q2: "quiet s s2" by (rule quiet_trans)
    obtain b3 s3 where v: "branch_variable H s2 = (b3, s3)"
      by (cases "branch_variable H s2")
    then have "quiet s2 s3" by (rule branch_variable_quiet)
    with q2 have q3: "quiet s s3" by (rule quiet_trans)
    from assms c ok e v have "s' = s2 \<or> s' = s3"
      by (auto simp: final_check_eh_def split: if_splits bool.splits)
    with q2 q3 show ?thesis by blast
  qed
qed

lemma final_check_eh_done:
  "final_check_eh H fuel s = Inr (FC_DONE, s') \<Longrightarrow> \<not> m_incomplete s'"
  by (auto simp: final_check_eh_def split: sum.splits if_splits prod.splits bool.splits)

lemma mk_value_quiet: "mk_value H fuel n s = Inr (e, s') \<Longrightarrow> quiet s s'"
proof -
  assume m: "mk_value H fuel n s = Inr (e, s')"
  then obtain e1 deps s1 where c: "canonize H fuel (get_owner n) None (s\<lparr>m_model_completion := True\<rparr>) = Inr (e1, deps, s1)"
    and s': "s' = (call H (Factory_add_trail e1) s1)\<lparr>m_model_completion := m_model_completion s\<rparr>"
    by (auto simp: mk_value_def split: sum.splits)
  from canonize_quiet [OF c] have "quiet s s1" by simp
  then show ?thesis by (simp add: s')
qed

lemma run_op_scope:
  assumes "\<not> scope_op x" and "run_op H fuel x s = Inr s'"
  shows "in_scope H s s'"
proof (cases x)
  case (Op_internalize_term t)
  with assms show ?thesis by (auto simp: internalize_term_scope)
next
  case (Op_internalize_atom a)
  with assms show ?thesis by (auto simp: internalize_atom_def internalize_term_scope)
next
  case (Op_apply_sort_cnstr n srt)
  have "quiet s (apply_sort_cnstr H n srt s)" by (simp add: apply_sort_cnstr_def mk_var_quiet)
  with Op_apply_sort_cnstr assms show ?thesis by (auto intro: quiet_in_scope)
next
  case (Op_new_eq v1 v2)
  with assms show ?thesis by (auto intro: quiet_in_scope new_eq_eh_quiet)
next
  case (Op_new_diseq v1 v2)
  with assms show ?thesis by (auto simp: new_diseq_eh_scope)
next
  case (Op_assign v b)
  with assms show ?thesis by (auto intro: assign_eq_scope)
next
  case (Op_relevant n)
  with assms show ?thesis by (auto intro: relevant_eh_scope)
next
  case Op_propagate
  with assms show ?thesis by (auto simp: propagate_scope)
next
  case Op_final_check
  with assms show ?thesis by (auto intro: quiet_in_scope final_check_eh_quiet split: sum.splits)
next
  case Op_push_scope
  with assms show ?thesis by simp
next
  case (Op_pop_scope n)
  with assms show ?thesis by simp
next
  case Op_restart
  with assms show ?thesis by (auto simp: restart_eh_def in_scope_refl)
next
  case Op_init_model
  have "quiet s (init_model H s)" by (simp add: init_model_def)
  with Op_init_model assms show ?thesis by (auto intro: quiet_in_scope)
next
  case (Op_mk_value n)
  with assms show ?thesis by (auto intro: quiet_in_scope mk_value_quiet split: sum.splits)
next
  case (Op_add_indexof_axiom i)
  with assms show ?thesis by (auto intro: add_indexof_axiom_scope)
next
  case (Op_add_replace_axiom r)
  with assms show ?thesis by (auto intro: add_replace_axiom_scope)
next
  case (Op_add_len_concat_axiom c)
  with assms show ?thesis by (auto intro: add_len_concat_axiom_scope)
next
  case (Op_add_extract_axiom e)
  with assms show ?thesis by (auto intro: add_extract_axiom_scope)
next
  case (Op_create_axiom e)
  with assms show ?thesis by (auto intro: in_scope_step step_axiom)
next
  case (Op_set_incomplete t)
  with assms show ?thesis by (auto intro: in_scope_step step_incomplete)
next
  case (Op_update e r d)
  with assms show ?thesis by (auto intro: in_scope_step step_update)
next
  case (Op_find e)
  with assms obtain found rep where f: "find_sol fuel e (m_rep s) = Inr (found, rep)"
    and s': "s' = s\<lparr>m_rep := rep\<rparr>"
    by (auto split: sum.splits)
  from find_sol_evolves [OF f] have "quiet s s'" by (simp add: s' quiet_def)
  then show ?thesis by (rule quiet_in_scope)
next
  case (Op_exclude e r)
  with assms show ?thesis by (auto intro: in_scope_step step_exclude)
qed

section \<open>Pushing and popping scopes\<close>

lemma wf_init: "wf (init h)"
  by (simp add: wf_def init_def sm_wf_def ex_wf_def ts_wf_def)

lemma pop_view_0:
  "pop_view 0 s = (Inr (m_rep s), Inr (m_exclude s), Inr (m_eqs s, m_eqs_stack s), Inr (m_trail_stack s, trailed s))"
  by (simp add: pop_view_alt sm_pop_scope_def ex_pop_scope_def frames_view_def frames_pop_def ts_pop_v_def)

lemma push_scope_eh_fields:
  "m_rep (push_scope_eh H s) = sm_push_scope (m_rep s)"
  "m_exclude (push_scope_eh H s) = ex_push_scope (m_exclude s)"
  "m_eqs (push_scope_eh H s) = m_eqs s"
  "m_eqs_stack (push_scope_eh H s) = m_eqs_stack s @ [m_eqs s]"
  "m_trail_stack (push_scope_eh H s) =
     \<lparr>ts_trail = ts_trail (m_trail_stack s) @ [Value_trail_axioms_head (m_axioms_head s)],
      ts_scopes = ts_scopes (m_trail_stack s) @ [length (ts_trail (m_trail_stack s))]\<rparr>"
  "trailed (push_scope_eh H s) = trailed s"
  by (simp_all add: push_scope_eh_def Let_def call_def ts_push_scope_def ts_push_def trailed_def)

lemma push_scope_eh_view:
  assumes "wf s"
  shows "wf (push_scope_eh H s) \<and> (\<forall>k. pop_view (Suc k) (push_scope_eh H s) = pop_view k s)"
proof -
  from assms have w: "sm_wf (m_rep s)" "ex_wf (m_exclude s)" "ts_wf (m_trail_stack s)"
    and l: "length (m_limit (m_rep s)) = length (m_eqs_stack s)"
      "length (ex_limit (m_exclude s)) = length (m_eqs_stack s)"
      "length (ts_scopes (m_trail_stack s)) = length (m_eqs_stack s)"
    by (simp_all add: wf_def)
  have ln: "length (m_limit (sm_push_scope (m_rep s))) = Suc (length (m_limit (m_rep s)))"
    "length (ex_limit (ex_push_scope (m_exclude s))) = Suc (length (ex_limit (m_exclude s)))"
    by (simp_all add: sm_push_scope_def ex_push_scope_def)
  have "wf (push_scope_eh H s)"
    unfolding wf_def push_scope_eh_fields
    using w l by (simp add: sm_push_wf ex_push_wf ts_push_scope_wf ln)
  moreover have "pop_view (Suc k) (push_scope_eh H s) = pop_view k s" for k
  proof -
    have f: "frames_view (Suc k) (push_scope_eh H s) = frames_view k s"
      using frames_view_cong [of "push_scope_eh H s" "s\<lparr>m_eqs_stack := m_eqs_stack s @ [m_eqs s]\<rparr>" "Suc k"]
      by (simp add: push_scope_eh_fields frames_view_push)
    obtain i a h q where t: "trailed s = (i, a, h, q)" by (cases "trailed s")
    then have h: "m_axioms_head s = h" by (simp add: trailed_def)
    show ?thesis
      unfolding pop_view_alt push_scope_eh_fields f t h
      by (simp add: sm_pop_push ex_pop_push ts_pop_v_push_scope [OF w(3)])
  qed
  ultimately show ?thesis by simp
qed

lemma pop_scope_eh_view:
  assumes "pop_scope_eh H j s = Inr s1"
  shows "pop_view j s = pop_view 0 s1"
proof -
  from assms obtain sa where a: "ts_pop_scope j s = Inr sa"
    by (auto simp: pop_scope_eh_def split: sum.splits)
  define sb where "sb = call H (Dm_pop_scope j) (call H (Theory_pop_scope j) sa)"
  have sb: "m_rep sb = m_rep s" "m_exclude sb = m_exclude s" "m_eqs sb = m_eqs s"
    "m_eqs_stack sb = m_eqs_stack s" "m_trail_stack sb = m_trail_stack sa" "trailed sb = trailed sa"
    using ts_pop_scope_other [OF a] by (simp_all add: sb_def call_def)
  from assms a obtain rep where r: "sm_pop_scope j (m_rep s) = Inr rep"
    by (auto simp: pop_scope_eh_def Let_def sb [unfolded sb_def] split: sum.splits)
  from assms a r obtain ex where e: "ex_pop_scope j (m_exclude s) = Inr ex"
    by (auto simp: pop_scope_eh_def Let_def sb [unfolded sb_def] split: sum.splits)
  from assms a r e have f: "frames_pop j (sb\<lparr>m_rep := rep, m_exclude := ex\<rparr>) = Inr s1"
    by (simp add: pop_scope_eh_def Let_def sb [unfolded sb_def] sb_def)
  then have s1: "m_rep s1 = rep" "m_exclude s1 = ex" "m_trail_stack s1 = m_trail_stack sa" "trailed s1 = trailed sa"
    using sb by (auto simp: frames_pop_def trailed_def split: if_splits)
  from f have "frames_view j (sb\<lparr>m_rep := rep, m_exclude := ex\<rparr>) = Inr (m_eqs s1, m_eqs_stack s1)"
    by (simp add: frames_view_def)
  then have fv: "frames_view j s = Inr (m_eqs s1, m_eqs_stack s1)"
    using frames_view_cong [of "sb\<lparr>m_rep := rep, m_exclude := ex\<rparr>" s j] sb by simp
  from a have tv: "ts_pop_v j (m_trail_stack s, trailed s) = Inr (m_trail_stack s1, trailed s1)"
    using ts_pop_scope_pure [of j s] by (simp add: s1)
  show ?thesis
    unfolding pop_view_0 unfolding pop_view_alt r e fv tv s1 by simp
qed

lemma pop_scope_eh_exists:
  assumes "pop_view j s = pop_view 0 s0"
  shows "\<exists>s1. pop_scope_eh H j s = Inr s1"
proof -
  from assms have r: "sm_pop_scope j (m_rep s) = Inr (m_rep s0)"
    and e: "ex_pop_scope j (m_exclude s) = Inr (m_exclude s0)"
    and f: "frames_view j s = Inr (m_eqs s0, m_eqs_stack s0)"
    and t: "map_sum id (\<lambda>s1. (m_trail_stack s1, trailed s1)) (ts_pop_scope j s) = Inr (m_trail_stack s0, trailed s0)"
    unfolding pop_view_0 by (simp_all add: pop_view_def frames_view_def)
  from t obtain sa where a: "ts_pop_scope j s = Inr sa"
    by (cases "ts_pop_scope j s") simp_all
  define sb where "sb = (call H (Dm_pop_scope j) (call H (Theory_pop_scope j) sa))\<lparr>m_rep := m_rep s0, m_exclude := m_exclude s0\<rparr>"
  have sb: "m_eqs sb = m_eqs s" "m_eqs_stack sb = m_eqs_stack s"
    using ts_pop_scope_other [OF a] by (simp_all add: sb_def call_def)
  from f have "frames_view j sb = Inr (m_eqs s0, m_eqs_stack s0)"
    using frames_view_cong [of sb s j] sb by simp
  then obtain s1 where "frames_pop j sb = Inr s1"
    by (cases "frames_pop j sb") (simp_all add: frames_view_def)
  then have "pop_scope_eh H j s = Inr s1"
    using a r e ts_pop_scope_other [OF a]
    by (simp add: pop_scope_eh_def Let_def sb_def call_def)
  then show ?thesis by blast
qed

lemma pop_scope_eh_pop:
  assumes "wf s" and "pop_scope_eh H j s = Inr s1"
  shows "wf s1 \<and> (\<forall>k. pop_view k s1 = pop_view (j + k) s)"
proof -
  from assms(1) have w: "sm_wf (m_rep s)" "ex_wf (m_exclude s)" "ts_wf (m_trail_stack s)"
    and l: "length (m_limit (m_rep s)) = length (m_eqs_stack s)"
      "length (ex_limit (m_exclude s)) = length (m_eqs_stack s)"
      "length (ts_scopes (m_trail_stack s)) = length (m_eqs_stack s)"
    by (simp_all add: wf_def)
  from pop_scope_eh_view [OF assms(2)]
  have r: "sm_pop_scope j (m_rep s) = Inr (m_rep s1)"
    and e: "ex_pop_scope j (m_exclude s) = Inr (m_exclude s1)"
    and f: "frames_view j s = Inr (m_eqs s1, m_eqs_stack s1)"
    and t: "ts_pop_v j (m_trail_stack s, trailed s) = Inr (m_trail_stack s1, trailed s1)"
    unfolding pop_view_0 by (simp_all add: pop_view_alt)
  from f obtain s' where p: "frames_pop j s = Inr s'" and s': "m_eqs s' = m_eqs s1" "m_eqs_stack s' = m_eqs_stack s1"
    by (cases "frames_pop j s") (auto simp: frames_view_def)
  have fl: "length (m_eqs_stack s1) = length (m_eqs_stack s) - j"
    and fp: "\<And>k. frames_view k s1 = frames_view (j + k) s"
    using frames_view_pop [OF p] frames_view_cong [of s1 s'] s' by simp_all
  note R = sm_pop_pop [OF w(1) r]
  note E = ex_pop_pop [OF w(2) e]
  note T = ts_pop_v_pop [OF w(3) t]
  have "wf s1"
    unfolding wf_def using R E T fl l by simp
  moreover have "pop_view k s1 = pop_view (j + k) s" for k
    unfolding pop_view_alt using R E T fp by simp
  ultimately show ?thesis by simp
qed

section \<open>Runs\<close>

lemma run_op_wf:
  assumes "wf s" and "run_op H fuel x s = Inr s'"
  shows "wf s'"
proof (cases "scope_op x")
  case False
  from in_scope_view [OF run_op_scope [OF False assms(2)] assms(1)] show ?thesis by simp
next
  case True
  then show ?thesis
  proof (cases x)
    case Op_push_scope
    with assms push_scope_eh_view [OF assms(1), of H] show ?thesis by auto
  next
    case (Op_pop_scope n)
    with assms pop_scope_eh_pop [OF assms(1), of H n s'] show ?thesis by auto
  qed simp_all
qed

lemma run_ops_wf: "wf s \<Longrightarrow> run_ops H fuel ops s = Inr s' \<Longrightarrow> wf s'"
proof (induction ops arbitrary: s)
  case Nil
  then show ?case by simp
next
  case (Cons x xs)
  from Cons.prems(2) obtain s1 where a: "run_op H fuel x s = Inr s1" and b: "run_ops H fuel xs s1 = Inr s'"
    by (auto split: sum.splits)
  from run_op_wf [OF Cons.prems(1) a] have "wf s1" .
  from Cons.IH [OF this b] show ?case .
qed

lemma run_ops_view:
  assumes "wf s" and "\<And>k. 1 \<le> k \<Longrightarrow> pop_view (k + d) s = pop_view k b"
    and "run_ops H fuel ops s = Inr s'" and "scope_depth d ops = Some e"
  shows "\<forall>k. 1 \<le> k \<longrightarrow> pop_view (k + e) s' = pop_view k b"
  using assms
proof (induction ops arbitrary: s d)
  case Nil
  then show ?case by simp
next
  case (Cons x xs)
  from Cons.prems(3) obtain s1 where a: "run_op H fuel x s = Inr s1" and r: "run_ops H fuel xs s1 = Inr s'"
    by (auto split: sum.splits)
  from run_op_wf [OF Cons.prems(1) a] have w1: "wf s1" .
  show ?case
  proof (cases "scope_op x")
    case False
    from in_scope_view [OF run_op_scope [OF False a] Cons.prems(1)]
    have v: "\<And>k. 1 \<le> k \<Longrightarrow> pop_view k s1 = pop_view k s" by simp
    have i: "pop_view (k + d) s1 = pop_view k b" if "1 \<le> k" for k
      using v [of "k + d"] Cons.prems(2) [OF that] that by simp
    from False Cons.prems(4) have "scope_depth d xs = Some e" by (cases x) simp_all
    from Cons.IH [OF w1 i r this] show ?thesis .
  next
    case True
    then show ?thesis
    proof (cases x)
      case Op_push_scope
      with a have s1: "s1 = push_scope_eh H s" by simp
      from push_scope_eh_view [OF Cons.prems(1), of H]
      have v: "\<And>k. pop_view (Suc k) s1 = pop_view k s" by (simp add: s1)
      have i: "pop_view (k + (d + 1)) s1 = pop_view k b" if "1 \<le> k" for k
        using v [of "k + d"] Cons.prems(2) [OF that] by simp
      from Op_push_scope Cons.prems(4) have "scope_depth (d + 1) xs = Some e" by simp
      from Cons.IH [OF w1 i r this] show ?thesis .
    next
      case (Op_pop_scope n)
      with a have p: "pop_scope_eh H n s = Inr s1" by simp
      from Op_pop_scope Cons.prems(4) have n: "n \<le> d" and sd: "scope_depth (d - n) xs = Some e"
        by (simp_all split: if_splits)
      from pop_scope_eh_pop [OF Cons.prems(1) p]
      have v: "\<And>k. pop_view k s1 = pop_view (n + k) s" by simp
      have i: "pop_view (k + (d - n)) s1 = pop_view k b" if "1 \<le> k" for k
        using v [of "k + (d - n)"] Cons.prems(2) [OF that] n by simp
      from Cons.IH [OF w1 i r sd] show ?thesis .
    qed simp_all
  qed
qed

section \<open>The incompleteness flag stays set within its scope\<close>

lemma step_flag:
  assumes "step H s s'" and "m_incomplete s"
  shows "m_incomplete s' \<and> ts_scopes (m_trail_stack s') = ts_scopes (m_trail_stack s)
         \<and> (\<exists>ext. ts_trail (m_trail_stack s') = ts_trail (m_trail_stack s) @ ext
                   \<and> list_all (\<lambda>t. \<not> is_incomplete_trail t) ext)"
  using assms
proof (induction rule: step.induct)
  case (step_incomplete H s t)
  then show ?case by (simp add: set_incomplete_def)
next
  case (step_axiom H s e)
  then show ?case by (simp add: create_axiom_def ts_push_def)
next
  case (step_ineq H s e)
  then show ?case by (simp add: record_ineq_def ts_push_def)
qed simp_all

lemma step_flag_kept:
  assumes "step H s s'" and "flag_kept p d s"
  shows "flag_kept p d s'"
proof -
  from assms(2) have i: "m_incomplete s" by (simp add: flag_kept_def)
  from step_flag [OF assms(1) i] obtain ext where
    a: "m_incomplete s'" "ts_scopes (m_trail_stack s') = ts_scopes (m_trail_stack s)"
    "ts_trail (m_trail_stack s') = ts_trail (m_trail_stack s) @ ext"
    "list_all (\<lambda>t. \<not> is_incomplete_trail t) ext"
    by blast
  with assms(2) show ?thesis by (simp add: flag_kept_def)
qed

lemma in_scope_flag_kept:
  assumes "in_scope H s s'" and "flag_kept p d s"
  shows "flag_kept p d s'"
  using assms unfolding in_scope_def
  by (induction rule: rtranclp_induct) (simp_all add: step_flag_kept)

lemma push_scope_eh_flag_kept:
  assumes "flag_kept p d s"
  shows "flag_kept p (d + 1) (push_scope_eh H s)"
proof -
  have i: "m_incomplete (push_scope_eh H s) = m_incomplete s"
    by (simp add: push_scope_eh_def Let_def call_def ts_push_scope_def ts_push_def)
  from assms show ?thesis
    unfolding flag_kept_def i push_scope_eh_fields
    by (simp add: Suc_diff_le)
qed

lemma fold_undo_v_flag:
  "list_all (\<lambda>t. \<not> is_incomplete_trail t) ts \<Longrightarrow> fst (fold undo_v ts v) = fst v"
proof (induction ts arbitrary: v)
  case Nil
  then show ?case by simp
next
  case (Cons t ts)
  obtain i a h q where v: "v = (i, a, h, q)" by (cases v)
  from Cons.prems have "fst (undo_v t v) = fst v" unfolding v by (cases t) simp_all
  with Cons show ?case by simp
qed

lemma list_all_drop_take:
  "list_all P (drop a xs) \<Longrightarrow> list_all P (drop a (take b xs))"
proof -
  assume "list_all P (drop a xs)"
  then have "list_all P (take (b - a) (drop a xs))"
    unfolding list_all_iff using set_take_subset by fastforce
  then show ?thesis by (simp add: drop_take)
qed

lemma list_all_drop_more:
  "list_all P (drop a xs) \<Longrightarrow> a \<le> b \<Longrightarrow> list_all P (drop b xs)"
  unfolding list_all_iff using set_drop_subset_set_drop by fastforce

lemma pop_scope_eh_flag_kept:
  assumes "flag_kept p d s" and "n \<le> d" and "pop_scope_eh H n s = Inr s1"
  shows "flag_kept p (d - n) s1"
proof (cases "n = 0")
  case True
  from pop_scope_eh_view [OF assms(3)] True
  have "pop_view 0 s = pop_view 0 s1" by simp
  then have "m_trail_stack s1 = m_trail_stack s" "trailed s1 = trailed s"
    unfolding pop_view_0 by simp_all
  then have "m_trail_stack s1 = m_trail_stack s" "m_incomplete s1 = m_incomplete s"
    by (simp_all add: trailed_def)
  with assms(1) True show ?thesis by (simp add: flag_kept_def)
next
  case False
  let ?ts = "m_trail_stack s"
  let ?L = "length (ts_scopes ?ts)"
  let ?m = "ts_scopes ?ts ! (?L - n)"
  from assms(1) have i: "m_incomplete s" and dL: "d \<le> ?L"
    and marks: "list_all (\<lambda>m. p \<le> m) (drop (?L - d) (ts_scopes ?ts))"
    and pl: "p \<le> length (ts_trail ?ts)"
    and clean: "list_all (\<lambda>t. \<not> is_incomplete_trail t) (drop p (ts_trail ?ts))"
    by (simp_all add: flag_kept_def)
  from False assms(2) dL have n0: "0 < n" and nL: "n \<le> ?L" by simp_all
  from pop_scope_eh_view [OF assms(3)]
  have t: "ts_pop_v n (?ts, trailed s) = Inr (m_trail_stack s1, trailed s1)"
    unfolding pop_view_0 by (simp add: pop_view_alt)
  have mlen: "?m \<le> length (ts_trail ?ts)"
    using t n0 nL by (auto simp: ts_pop_v_def split: if_splits)
  from t have ts1: "m_trail_stack s1 = \<lparr>ts_trail = take ?m (ts_trail ?ts), ts_scopes = take (?L - n) (ts_scopes ?ts)\<rparr>"
    and v1: "trailed s1 = fold undo_v (rev (drop ?m (ts_trail ?ts))) (trailed s)"
    unfolding ts_pop_v_eq [OF n0 nL mlen] by simp_all
  have "?m \<in> set (drop (?L - d) (ts_scopes ?ts))"
  proof -
    have "drop (?L - d) (ts_scopes ?ts) ! (d - n) = ts_scopes ?ts ! (?L - d + (d - n))"
      using dL assms(2) n0 by (simp add: nth_drop)
    moreover have "?L - d + (d - n) = ?L - n" using dL assms(2) by simp
    moreover have "d - n < length (drop (?L - d) (ts_scopes ?ts))" using dL assms(2) n0 by simp
    ultimately show ?thesis by (metis nth_mem)
  qed
  with marks have pm: "p \<le> ?m" by (simp add: list_all_iff)
  from list_all_drop_more [OF clean pm]
  have "list_all (\<lambda>t. \<not> is_incomplete_trail t) (rev (drop ?m (ts_trail ?ts)))" by simp
  from fold_undo_v_flag [OF this, of "trailed s"] v1 have "fst (trailed s1) = fst (trailed s)"
    by simp
  with i have i1: "m_incomplete s1" by (simp add: trailed_def)
  have sc: "list_all (\<lambda>m. p \<le> m) (drop (?L - n - (d - n)) (take (?L - n) (ts_scopes ?ts)))"
  proof -
    have "?L - n - (d - n) = ?L - d" using dL assms(2) by simp
    with list_all_drop_take [OF marks] show ?thesis by simp
  qed
  show ?thesis
    unfolding flag_kept_def ts1
    using i1 sc pm mlen nL dL assms(2) list_all_drop_take [OF clean, of ?m]
    by (simp add: min_absorb2)
qed

lemma run_ops_flag_kept:
  "flag_kept p d s \<Longrightarrow> run_ops H fuel ops s = Inr s' \<Longrightarrow> scope_depth d ops = Some e \<Longrightarrow> flag_kept p e s'"
proof (induction ops arbitrary: s d)
  case Nil
  then show ?case by simp
next
  case (Cons x xs)
  from Cons.prems(2) obtain s1 where a: "run_op H fuel x s = Inr s1" and r: "run_ops H fuel xs s1 = Inr s'"
    by (auto split: sum.splits)
  show ?case
  proof (cases "scope_op x")
    case False
    from in_scope_flag_kept [OF run_op_scope [OF False a] Cons.prems(1)] have k: "flag_kept p d s1" .
    from False Cons.prems(3) have "scope_depth d xs = Some e" by (cases x) simp_all
    from Cons.IH [OF k r this] show ?thesis .
  next
    case True
    then show ?thesis
    proof (cases x)
      case Op_push_scope
      with a have s1: "s1 = push_scope_eh H s" by simp
      from push_scope_eh_flag_kept [OF Cons.prems(1), of H] have k: "flag_kept p (d + 1) s1"
        by (simp add: s1)
      from Op_push_scope Cons.prems(3) have "scope_depth (d + 1) xs = Some e" by simp
      from Cons.IH [OF k r this] show ?thesis .
    next
      case (Op_pop_scope n)
      with a have p: "pop_scope_eh H n s = Inr s1" by simp
      from Op_pop_scope Cons.prems(3) have n: "n \<le> d" and sd: "scope_depth (d - n) xs = Some e"
        by (simp_all split: if_splits)
      from pop_scope_eh_flag_kept [OF Cons.prems(1) n p] have k: "flag_kept p (d - n) s1" .
      from Cons.IH [OF k r sd] show ?thesis .
    qed simp_all
  qed
qed

lemma internalize_term_flag:
  assumes "\<not> supported_head t"
  shows "m_incomplete (snd (internalize_term H t s))"
proof -
  obtain s2 where "snd (internalize_term H t s) = (if supported_head t then s2 else set_incomplete t s2)"
    using internalize_term_shape by blast
  with assms show ?thesis by (simp add: set_incomplete_def)
qed

lemma flag_kept_start: "m_incomplete s \<Longrightarrow> flag_kept (length (ts_trail (m_trail_stack s))) 0 s"
  by (simp add: flag_kept_def)

section \<open>Walks in the solution map\<close>

text \<open>
  \<open>chain m e es\<close>: the entries of \<open>m\<close> lead from \<open>e\<close> along the edges \<open>es\<close>, each
  edge given by its target and its witness.
\<close>

fun chain :: "(expr \<rightharpoonup> (expr \<times> enode_pair_dependency)) \<Rightarrow> expr \<Rightarrow> (expr \<times> enode_pair_dependency) list \<Rightarrow> bool" where
  "chain m e [] = True"
| "chain m e (x # es) = (m e = Some x \<and> chain m (fst x) es)"

definition walk_end :: "expr \<Rightarrow> (expr \<times> enode_pair_dependency) list \<Rightarrow> expr" where
  "walk_end e es = (if es = [] then e else fst (last es))"

definition joined :: "enode_pair_dependency \<Rightarrow> (expr \<times> enode_pair_dependency) list \<Rightarrow> enode_pair_dependency" where
  "joined d es = foldl (\<lambda>acc x. mk_join acc (snd x)) d es"

lemma find_loop_chain:
  "chain m e es \<Longrightarrow> m (walk_end e es) = None \<Longrightarrow> length es < fuel \<Longrightarrow>
   find_loop fuel m e d k = Inr (walk_end e es, joined d es, k + length es)"
proof (induction es arbitrary: e d k fuel)
  case Nil
  then obtain f where "fuel = Suc f" by (cases fuel) auto
  with Nil show ?case by (simp add: walk_end_def joined_def)
next
  case (Cons x es)
  then obtain f where f: "fuel = Suc f" by (cases fuel) auto
  have we: "walk_end e (x # es) = walk_end (fst x) es"
    by (simp add: walk_end_def)
  have "find_loop f m (fst x) (mk_join d (snd x)) (k + 1)
        = Inr (walk_end (fst x) es, joined (mk_join d (snd x)) es, (k + 1) + length es)"
    using Cons.prems f by (intro Cons.IH) (auto simp: we)
  with Cons.prems f show ?case
    by (simp add: we joined_def)
qed

text \<open>
  C7. \<^verbatim>\<open>solution_map::find(e)\<close> walks the entries from \<open>e\<close> to a term without an
  entry and returns that term with the join of the witnesses of the edges it passed;
  when it passed two edges or more it calls \<^verbatim>\<open>update\<close>, which maps \<open>e\<close> to the end of
  the walk under the joined witness and puts the record of that insertion last on
  the trail.
\<close>

theorem find_walks_and_compresses:
  assumes "chain (m_map sm) e es" and "m_map sm (walk_end e es) = None" and "length es < fuel"
  shows "find_sol fuel e sm =
           Inr ((walk_end e es, joined None es),
                if 2 \<le> length es then update e (walk_end e es) (joined None es) sm else sm)
         \<and> m_map (update e (walk_end e es) (joined None es) sm)
             = (m_map sm)(e \<mapsto> (walk_end e es, joined None es))
         \<and> last (m_trail (update e (walk_end e es) (joined None es) sm))
             = (INS, e, walk_end e es, joined None es)
         \<and> m_limit (update e (walk_end e es) (joined None es) sm) = m_limit sm"
proof -
  have "find_loop fuel (m_map sm) e None 0 = Inr (walk_end e es, joined None es, 0 + length es)"
    using assms by (rule find_loop_chain)
  then have "find_sol fuel e sm =
           Inr ((walk_end e es, joined None es),
                if 2 \<le> length es then update e (walk_end e es) (joined None es) sm else sm)"
    by (auto simp: find_sol_def)
  then show ?thesis
    by (simp add: update_def add_trail_def Let_def split: option.splits)
qed

theorem find_walks_and_compresses_witness:
  "chain (m_map sm_xyz) vx [(vy, dxy), (vz, dyz)]
   \<and> m_map sm_xyz (walk_end vx [(vy, dxy), (vz, dyz)]) = None
   \<and> find_sol 3 vx sm_xyz
       = Inr ((vz, Some (Join (Leaf (Enode vx, Enode vy)) (Leaf (Enode vy, Enode vz)))),
              update vx vz (Some (Join (Leaf (Enode vx, Enode vy)) (Leaf (Enode vy, Enode vz)))) sm_xyz)
   \<and> m_map (update vx vz (Some (Join (Leaf (Enode vx, Enode vy)) (Leaf (Enode vy, Enode vz)))) sm_xyz) vx
       = Some (vz, Some (Join (Leaf (Enode vx, Enode vy)) (Leaf (Enode vy, Enode vz))))"
  using find_walks_and_compresses [of sm_xyz vx "[(vy, dxy), (vz, dyz)]" 3]
  by (simp add: sm_xyz_def vx_def vy_def vz_def dxy_def dyz_def walk_end_def joined_def mk_join_def)

section \<open>The axioms of indexof\<close>

lemma create_axiom_fields:
  "m_axioms (create_axiom e st) = m_axioms st @ [e]"
  "ts_trail (m_trail_stack (create_axiom e st)) = ts_trail (m_trail_stack st) @ [Push_back_axioms]"
  by (simp_all add: create_axiom_def ts_push_def)

text \<open>
  C8. For \<open>i = indexof(s, t)\<close>, \<^verbatim>\<open>add_indexof_axiom\<close> creates exactly four clauses, in
  this order: \<open>contains(s,t) \<or> i = -1\<close>; \<open>\<not>contains(s,t) \<or> \<not>(s = \<epsilon>) \<or> i = 0\<close>;
  \<open>\<not>contains(s,t) \<or> s = \<epsilon> \<or> t = x\<frown>s\<frown>y\<close>; and
  \<open>\<not>contains(s,t) \<or> s = \<epsilon> \<or> TP(s, x)\<close>, where \<open>x\<close> and \<open>y\<close> are the skolems
  \<open>contains_left(s,t)\<close> and \<open>contains_right(s,t)\<close> and \<open>TP(s, x)\<close> is the conjunction
  of \<open>s = first(s)\<frown>last(s)\<close>, \<open>|last(s)| = 1\<close> and \<open>\<not>contains(s, x\<frown>first(s))\<close>.
  Under every valuation of the atoms the four clauses say: not contains implies
  \<open>i = -1\<close>; contains and \<open>s\<close> empty imply \<open>i = 0\<close>; contains and \<open>s\<close> not empty imply
  \<open>t = x\<frown>s\<frown>y\<close>, and imply the three conjuncts of \<open>TP(s, x)\<close>.
\<close>

theorem add_indexof_axiom_clauses:
  "let i = Index s t;
       cnt = Contains s t;
       eq_empty = EqE s (Empty (get_sort s));
       x = Skolem ''contains_left'' s (Some t) (get_sort s);
       y = Skolem ''contains_right'' s (Some t) (get_sort s);
       s1 = Skolem ''first'' s None (get_sort s);
       c = Skolem ''last'' s None (get_sort s);
       c1 = OrE [cnt, EqE i (IntE (- 1))];
       c2 = OrE [NotE cnt, NotE eq_empty, EqE i (IntE 0)];
       c3 = OrE [NotE cnt, eq_empty, EqE t (Concat x (Concat s y))];
       c4 = OrE [NotE cnt, eq_empty,
                 AndE [EqE s (Concat s1 c), EqE (Length c) (IntE 1), NotE (Contains s (Concat x s1))]]
   in (\<exists>st'. add_indexof_axiom i st = Inr st'
             \<and> m_axioms st' = m_axioms st @ [c1, c2, c3, c4]
             \<and> ts_trail (m_trail_stack st') = ts_trail (m_trail_stack st) @ replicate 4 Push_back_axioms)
      \<and> (\<forall>v. (holds v c1 \<longleftrightarrow> (\<not> v cnt \<longrightarrow> v (EqE i (IntE (- 1)))))
            \<and> (holds v c2 \<longleftrightarrow> (v cnt \<and> v eq_empty \<longrightarrow> v (EqE i (IntE 0))))
            \<and> (holds v c3 \<longleftrightarrow> (v cnt \<and> \<not> v eq_empty \<longrightarrow> v (EqE t (Concat x (Concat s y)))))
            \<and> (holds v c4 \<longleftrightarrow> (v cnt \<and> \<not> v eq_empty \<longrightarrow>
                  v (EqE s (Concat s1 c)) \<and> v (EqE (Length c) (IntE 1)) \<and> \<not> v (Contains s (Concat x s1)))))"
proof -
  have run: "\<exists>st'. add_indexof_axiom (Index s t) st = Inr st'
      \<and> m_axioms st' = m_axioms st @
          [OrE [Contains s t, EqE (Index s t) (IntE (- 1))],
           OrE [NotE (Contains s t), NotE (EqE s (Empty (get_sort s))), EqE (Index s t) (IntE 0)],
           OrE [NotE (Contains s t), EqE s (Empty (get_sort s)),
                EqE t (Concat (Skolem ''contains_left'' s (Some t) (get_sort s))
                         (Concat s (Skolem ''contains_right'' s (Some t) (get_sort s))))],
           OrE [NotE (Contains s t), EqE s (Empty (get_sort s)),
                AndE [EqE s (Concat (Skolem ''first'' s None (get_sort s)) (Skolem ''last'' s None (get_sort s))),
                      EqE (Length (Skolem ''last'' s None (get_sort s))) (IntE 1),
                      NotE (Contains s (Concat (Skolem ''contains_left'' s (Some t) (get_sort s))
                                               (Skolem ''first'' s None (get_sort s))))]]]
      \<and> ts_trail (m_trail_stack st') = ts_trail (m_trail_stack st) @ replicate 4 Push_back_axioms"
    by (simp add: add_indexof_axiom_def Let_def create_axiom_fields tightest_prefix_def mk_skolem_def
        mk_concat3_def m_contains_left_sym_def m_contains_right_sym_def numeral_eq_Suc)
  show ?thesis
    unfolding Let_def
    apply (rule conjI)
     apply (rule run)
    apply (simp)
    apply blast
    done
qed

theorem add_indexof_axiom_clauses_witness:
  "\<exists>st'. add_indexof_axiom (Index vx vy) (init []) = Inr st'
     \<and> m_axioms st' =
         [OrE [Contains vx vy, EqE (Index vx vy) (IntE (- 1))],
          OrE [NotE (Contains vx vy), NotE (EqE vx (Empty (Seq_sort Char_sort))), EqE (Index vx vy) (IntE 0)],
          OrE [NotE (Contains vx vy), EqE vx (Empty (Seq_sort Char_sort)),
               EqE vy (Concat (Skolem ''contains_left'' vx (Some vy) (Seq_sort Char_sort))
                        (Concat vx (Skolem ''contains_right'' vx (Some vy) (Seq_sort Char_sort))))],
          OrE [NotE (Contains vx vy), EqE vx (Empty (Seq_sort Char_sort)),
               AndE [EqE vx (Concat (Skolem ''first'' vx None (Seq_sort Char_sort))
                                    (Skolem ''last'' vx None (Seq_sort Char_sort))),
                     EqE (Length (Skolem ''last'' vx None (Seq_sort Char_sort))) (IntE 1),
                     NotE (Contains vx (Concat (Skolem ''contains_left'' vx (Some vy) (Seq_sort Char_sort))
                                               (Skolem ''first'' vx None (Seq_sort Char_sort))))]]]"
proof -
  have sx: "get_sort vx = Seq_sort Char_sort"
    by (simp add: vx_def)
  from add_indexof_axiom_clauses [of vx vy "init []"] show ?thesis
    unfolding Let_def sx by (auto simp: init_def)
qed

section \<open>The occurs check\<close>

lemma strip_select_idem: "strip_select (strip_select a) = strip_select a"
  by (induction a rule: strip_select.induct) auto

lemma under_select_strip: "under_select v t \<Longrightarrow> strip_select t = strip_select v"
  by (induction v t rule: under_select.induct) auto

lemma occurs_strip: "occurs (strip_select a) b = occurs a b"
  by (induction a b rule: occurs.induct) (simp_all add: strip_select_idem)

lemma occurs_leaf: "\<not> is_concat b \<Longrightarrow> occurs a b = (strip_select a = strip_select b)"
  by (cases b) simp_all

lemma appears_below_leaf: "\<not> is_concat t \<Longrightarrow> appears_below v t = under_select v t"
  by (cases t) simp_all

lemma occurs_complete_below:
  "\<not> is_concat v \<Longrightarrow> appears_below v t \<Longrightarrow> occurs v t"
proof (induction t)
  case (Concat a b)
  then show ?case by (auto simp: occurs_strip)
qed (auto simp: occurs_leaf dest: under_select_strip)

text \<open>
  What the check does find: for a variable \<open>v\<close>, if \<^verbatim>\<open>occurs(v, t)\<close> returns false
  then \<open>v\<close> does not appear in \<open>t\<close> along any path that goes through concatenations
  first and through left/right selectors below them.
\<close>

lemma occurs_sound_below:
  assumes "is_var v" and "\<not> occurs v t"
  shows "\<not> appears_below v t"
proof -
  from assms(1) have "\<not> is_concat v"
    by (cases v) (simp_all add: is_var_def)
  with assms(2) show ?thesis
    using occurs_complete_below by blast
qed


section \<open>New equalities\<close>

lemma new_eq_len_concat_skips: "new_eq_len_concat H n1 n2 s = Inr s"
  by (simp add: new_eq_len_concat_def f_len_def)

text \<open>
  C5. \<^verbatim>\<open>new_eq_eh(v1, v2)\<close> with distinct e-nodes appends the equation of the two
  owners, tagged with the leaf dependency of the pair, to the current frame. It
  enqueues no axiom: \<^verbatim>\<open>new_eq_len_concat\<close> returns at \<^verbatim>\<open>if (!f_len) return;\<close> with
  \<^verbatim>\<open>f_len\<close> null, in both directions, so that the list of axioms and the trail are as
  they were before the call.
\<close>

theorem new_eq_eh_enqueues_no_axiom:
  "\<exists>s'. new_eq_eh H v1 v2 s = Inr s'
     \<and> m_axioms s' = m_axioms s
     \<and> m_trail_stack s' = m_trail_stack s
     \<and> m_eqs s' =
         (if get_enode H (ctx s) v1 \<noteq> get_enode H (ctx s) v2
          then m_eqs s @ [(get_owner (get_enode H (ctx s) v1), get_owner (get_enode H (ctx s) v2),
                           mk_leaf H (ctx s) (get_enode H (ctx s) v1, get_enode H (ctx s) v2))]
          else m_eqs s)"
  by (simp add: new_eq_eh_def Let_def new_eq_len_concat_skips)

text \<open>
  The e-node of \<open>x\<close> meets the e-node of \<open>y\<frown>z\<close>: the equation is pending and no
  axiom \<open>|y\<frown>z| = |y| + |z|\<close> is in the list.
\<close>

theorem new_eq_eh_enqueues_no_axiom_witness:
  "\<exists>s'. new_eq_eh (log_host [vx, Concat vy vz]) 0 1 (init []) = Inr s'
     \<and> m_axioms s' = []
     \<and> m_eqs s' = [(vx, Concat vy vz, Some (Leaf (Enode vx, Enode (Concat vy vz))))]"
  using new_eq_eh_enqueues_no_axiom [of "log_host [vx, Concat vy vz]" 0 1 "init []"]
  by (auto simp: log_host_def init_def mk_leaf_def vx_def vy_def vz_def)

section \<open>Simplifying one equation\<close>

lemma linearize_mk_join:
  "set (linearize (mk_join a b)) = set (linearize a) \<union> set (linearize b)"
  by (auto simp: linearize_def mk_join_def split: option.splits)

lemma find_loop_deps:
  "find_loop fuel m e d k = Inr (r, d', k') \<Longrightarrow> set (linearize d) \<subseteq> set (linearize d')"
proof (induction fuel arbitrary: e d k)
  case 0
  then show ?case by simp
next
  case (Suc fuel)
  show ?case
  proof (cases "m e")
    case None
    with Suc.prems show ?thesis by simp
  next
    case (Some x)
    with Suc.prems have "find_loop fuel m (fst x) (mk_join d (snd x)) (k + 1) = Inr (r, d', k')"
      by simp
    from Suc.IH [OF this] show ?thesis
      by (auto simp: linearize_mk_join)
  qed
qed

lemma expand_var_deps: "expand_var H e eqs s = (r, eqs', s') \<Longrightarrow> eqs' = eqs"
  by (auto simp: expand_var_def Let_def split: if_splits option.splits)

lemma expand_args_deps:
  assumes "\<And>e eqs s r eqs' s'. rec e eqs s = Inr (r, eqs', s') \<Longrightarrow> set (linearize eqs) \<subseteq> set (linearize eqs')"
    and "expand_args right_first rec mk e1 e2 eqs s = Inr (r, eqs', s')"
  shows "set (linearize eqs) \<subseteq> set (linearize eqs')"
proof -
  from assms(2) obtain ea eb ra rb eqs1 s1 where
    a: "rec ea eqs s = Inr (ra, eqs1, s1)" and b: "rec eb eqs1 s1 = Inr (rb, eqs', s')"
    by (cases right_first) (auto simp: expand_args_def split: sum.splits)
  from assms(1) [OF a] assms(1) [OF b] show ?thesis by blast
qed

lemma expand_deps:
  "expand H fuel e eqs s = Inr (r, eqs', s') \<Longrightarrow> set (linearize eqs) \<subseteq> set (linearize eqs')"
proof (induction fuel arbitrary: e eqs s r eqs' s')
  case 0
  then show ?case by simp
next
  case (Suc fuel)
  from Suc.prems obtain found rep where
    f: "find_sol (Suc fuel) e (m_rep s) = Inr (found, rep)"
    by (auto split: sum.splits)
  let ?eqs1 = "mk_join eqs (snd found)"
  let ?s1 = "s\<lparr>m_rep := rep\<rparr>"
  have up: "set (linearize eqs) \<subseteq> set (linearize ?eqs1)"
    by (simp add: linearize_mk_join)
  have "set (linearize ?eqs1) \<subseteq> set (linearize eqs')"
  proof (cases "fst found")
    case (Concat e1 e2)
    with Suc.prems f have "expand_args (args_right_first H) (expand H fuel) Concat e1 e2 ?eqs1 ?s1 = Inr (r, eqs', s')"
      by (simp add: Let_def)
    then show ?thesis using Suc.IH by (rule expand_args_deps [rotated])
  next
    case (EqE e1 e2)
    with Suc.prems f have "expand_args (args_right_first H) (expand H fuel) EqE e1 e2 ?eqs1 ?s1 = Inr (r, eqs', s')"
      by (simp add: Let_def)
    then show ?thesis using Suc.IH by (rule expand_args_deps [rotated])
  next
    case (Prefix e1 e2)
    with Suc.prems f have "expand_args (args_right_first H) (expand H fuel) Prefix e1 e2 ?eqs1 ?s1 = Inr (r, eqs', s')"
      by (simp add: Let_def)
    then show ?thesis using Suc.IH by (rule expand_args_deps [rotated])
  next
    case (Suffix e1 e2)
    with Suc.prems f have "expand_args (args_right_first H) (expand H fuel) Suffix e1 e2 ?eqs1 ?s1 = Inr (r, eqs', s')"
      by (simp add: Let_def)
    then show ?thesis using Suc.IH by (rule expand_args_deps [rotated])
  next
    case (Contains e1 e2)
    with Suc.prems f have "expand_args (args_right_first H) (expand H fuel) Contains e1 e2 ?eqs1 ?s1 = Inr (r, eqs', s')"
      by (simp add: Let_def)
    then show ?thesis using Suc.IH by (rule expand_args_deps [rotated])
  qed (use Suc.prems f in \<open>auto simp: Let_def dest: expand_var_deps\<close>)
  with up show ?case by blast
qed

lemma canonize_deps:
  "canonize H fuel e eqs s = Inr (r, eqs', s') \<Longrightarrow> set (linearize eqs) \<subseteq> set (linearize eqs')"
  by (auto simp: canonize_def split: sum.splits dest: expand_deps)

lemma find_sol_xy: "find_sol 3 vx sm_xy = Inr ((vy, dxy), sm_xy)"
  by (simp add: find_sol_def sm_xy_def numeral_3_eq_3 vx_def vy_def mk_join_def)

lemma find_sol_xy_z: "find_sol 3 vz sm_xy = Inr ((vz, None), sm_xy)"
  by (simp add: find_sol_def sm_xy_def numeral_3_eq_3 vx_def vz_def)

lemma canonize_xy: "canonize (log_host []) 3 vx None st_xy = Inr (vy, dxy, st_xy)"
proof -
  have "expand (log_host []) 3 vx None st_xy = Inr (vy, dxy, st_xy)"
    unfolding numeral_3_eq_3 expand.simps
    unfolding numeral_3_eq_3 [symmetric]
    by (simp add: st_xy_def init_def find_sol_xy expand_var_def mk_join_def dxy_def vy_def)
  then show ?thesis
    by (simp add: canonize_def log_host_def vy_def)
qed

lemma canonize_xy_z: "canonize (log_host []) 3 vz dxy st_xy = Inr (vz, dxy, st_xy)"
proof -
  have "expand (log_host []) 3 vz dxy st_xy = Inr (vz, dxy, st_xy)"
    unfolding numeral_3_eq_3 expand.simps
    unfolding numeral_3_eq_3 [symmetric]
    by (simp add: st_xy_def init_def find_sol_xy_z) (simp add: expand_var_def mk_join_def dxy_def vz_def)
  then show ?thesis
    by (simp add: canonize_def log_host_def vz_def)
qed

text \<open>
  C6 fails as stated: \<^verbatim>\<open>simplify_eq\<close> compares the result of the reducer with the
  sides \<open>l\<close> and \<open>r\<close> it was handed, not with their canonized forms. With the solution
  \<open>x \<rightarrow> y\<close> recorded, the equation \<open>x = z\<close> canonizes to \<open>y = z\<close>; the reducer returns
  the single pair \<open>(y, z)\<close>, the canonized sides unchanged, and \<^verbatim>\<open>simplify_eq\<close> reports
  progress and appends \<open>y = z\<close>.
\<close>

theorem simplify_eq_progress_on_unchanged_canonized_sides:
  "canonize (log_host []) 3 vx None st_xy = Inr (vy, dxy, st_xy)
   \<and> canonize (log_host []) 3 vz dxy st_xy = Inr (vz, dxy, st_xy)
   \<and> reduce_eq (log_host []) vy vz = Some [(vy, vz)]
   \<and> simplify_eq (log_host []) 3 vx vz None st_xy = Inr (True, st_xy\<lparr>m_eqs := [(vy, vz, dxy)]\<rparr>)"
proof -
  have r: "reduce_eq (log_host []) vy vz = Some [(vy, vz)]"
    by (simp add: log_host_def vy_def vz_def)
  have "simplify_eq (log_host []) 3 vx vz None st_xy = Inr (True, st_xy\<lparr>m_eqs := [(vy, vz, dxy)]\<rparr>)"
    by (simp add: simplify_eq_def canonize_xy canonize_xy_z r)
      (simp add: vx_def vy_def st_xy_def init_def)
  with r show ?thesis
    by (simp add: canonize_xy canonize_xy_z)
qed

text \<open>
  C6, amended. With \<open>lh\<close> and \<open>rh\<close> the canonized sides and \<open>deps2\<close> the dependency
  after both canonizations: \<^verbatim>\<open>simplify_eq(l, r, deps)\<close> reports no progress exactly
  when the reducer returns the single pair of the sides \<open>l\<close>, \<open>r\<close> as they were handed
  in; when the reducer returns any other list, \<^verbatim>\<open>simplify_eq\<close> reports progress and
  appends each pair of the list to the current frame under \<open>deps2\<close>; and \<open>deps2\<close>
  holds every pair of \<open>deps\<close>.
\<close>

theorem simplify_eq_compares_with_given_sides:
  assumes "canonize H fuel l deps s = Inr (lh, deps1, s1)"
    and "canonize H fuel r deps1 s1 = Inr (rh, deps2, s2)"
  shows "((\<exists>s'. simplify_eq H fuel l r deps s = Inr (False, s')) \<longleftrightarrow> reduce_eq H lh rh = Some [(l, r)])
         \<and> (\<forall>eqs. reduce_eq H lh rh = Some eqs \<and> eqs \<noteq> [(l, r)] \<longrightarrow>
               simplify_eq H fuel l r deps s =
                 Inr (True, s2\<lparr>m_eqs := m_eqs s2 @ map (\<lambda>p. (fst p, snd p, deps2)) eqs\<rparr>))
         \<and> (reduce_eq H lh rh = None \<longrightarrow>
               simplify_eq H fuel l r deps s = Inr (True, set_conflict H deps2 s2))
         \<and> set (linearize deps) \<subseteq> set (linearize deps2)"
proof -
  have d: "set (linearize deps) \<subseteq> set (linearize deps2)"
    using canonize_deps [OF assms(1)] canonize_deps [OF assms(2)] by blast
  show ?thesis
    using assms d by (auto simp: simplify_eq_def split: option.splits)
qed

theorem simplify_eq_compares_with_given_sides_witness:
  "canonize (log_host []) 3 vx None st_xy = Inr (vy, dxy, st_xy)
   \<and> canonize (log_host []) 3 vz dxy st_xy = Inr (vz, dxy, st_xy)
   \<and> reduce_eq (log_host []) vy vz = Some [(vy, vz)]
   \<and> [(vy, vz)] \<noteq> [(vx, vz)]
   \<and> simplify_eq (log_host []) 3 vx vz None st_xy
       = Inr (True, st_xy\<lparr>m_eqs := m_eqs st_xy @ map (\<lambda>p. (fst p, snd p, dxy)) [(vy, vz)]\<rparr>)"
proof -
  have r: "reduce_eq (log_host []) vy vz = Some [(vy, vz)]"
    by (simp add: log_host_def vy_def vz_def)
  have n: "[(vy, vz)] \<noteq> [(vx, vz)]"
    by (simp add: vx_def vy_def)
  from simplify_eq_compares_with_given_sides [OF canonize_xy canonize_xy_z] r n
  have "simplify_eq (log_host []) 3 vx vz None st_xy
       = Inr (True, st_xy\<lparr>m_eqs := m_eqs st_xy @ map (\<lambda>p. (fst p, snd p, dxy)) [(vy, vz)]\<rparr>)"
    by blast
  with r n show ?thesis
    by (simp add: canonize_xy canonize_xy_z)
qed

section \<open>Checking the inequations\<close>

lemma canon_all_step: "canon_all H fuel as s = Inr (bs, s') \<Longrightarrow> canon_step s s'"
proof (induction as arbitrary: s bs)
  case Nil
  then show ?case by simp
next
  case (Cons a as)
  from Cons.prems obtain b eqs s1 bs1 where
    c: "canonize H fuel a None s = Inr (b, eqs, s1)" and r: "canon_all H fuel as s1 = Inr (bs1, s')"
    by (auto split: sum.splits)
  from canonize_step [OF c] Cons.IH [OF r] show ?case
    by (rule canon_step_trans)
qed

lemma check_ineqs_loop_none:
  "canon_all H fuel as s = Inr (bs, s') \<Longrightarrow> TrueE \<notin> fst ` set bs \<Longrightarrow>
   check_ineqs_loop H fuel as s = Inr (True, s')"
proof (induction as arbitrary: s bs)
  case Nil
  then show ?case by simp
next
  case (Cons a as)
  from Cons.prems(1) obtain b eqs s1 bs1 where
    c: "canonize H fuel a None s = Inr (b, eqs, s1)" and r: "canon_all H fuel as s1 = Inr (bs1, s')"
    and bs: "bs = (b, eqs) # bs1"
    by (auto split: sum.splits)
  from Cons.prems(2) bs have "b \<noteq> TrueE" and "TrueE \<notin> fst ` set bs1"
    by auto
  with Cons.IH [OF r] c show ?case by simp
qed

lemma check_ineqs_loop_first:
  "canon_all H fuel pre s = Inr (bs, s1) \<Longrightarrow> TrueE \<notin> fst ` set bs \<Longrightarrow>
   canonize H fuel a None s1 = Inr (TrueE, eqs, s2) \<Longrightarrow>
   check_ineqs_loop H fuel (pre @ a # post) s =
     Inr (False, propagate_lit H eqs (Literal_of a) (call H (Internalize a) s2))"
proof (induction pre arbitrary: s bs)
  case Nil
  then show ?case by simp
next
  case (Cons p pre)
  from Cons.prems(1) obtain b eqs' s' bs1 where
    c: "canonize H fuel p None s = Inr (b, eqs', s')" and r: "canon_all H fuel pre s' = Inr (bs1, s1)"
    and bs: "bs = (b, eqs') # bs1"
    by (auto split: sum.splits)
  from Cons.prems(2) bs have "b \<noteq> TrueE" and "TrueE \<notin> fst ` set bs1"
    by auto
  with Cons.IH [OF r _ Cons.prems(3)] c show ?case by simp
qed

text \<open>
  C9. \<^verbatim>\<open>check_ineqs\<close> takes the recorded atoms in order. When the atoms before \<open>a\<close>
  canonize to something other than true and \<open>a\<close> canonizes to true with the witnesses
  \<open>eqs\<close>, it internalizes \<open>a\<close>, assigns the literal of \<open>a\<close> under the linearized
  \<open>eqs\<close> and answers false; the state it returns is the one after the canonization of
  \<open>a\<close>, whatever atoms come after \<open>a\<close>. When no atom canonizes to true it answers
  true, and outside model completion the host has received no call. In every case the
  list of inequations is as it was.
\<close>

theorem check_ineqs_stops_at_first_refuted:
  "(\<forall>pre a post bs s1 eqs s2.
      m_ineqs s = pre @ a # post \<and> canon_all H fuel pre s = Inr (bs, s1) \<and> TrueE \<notin> fst ` set bs \<and>
      canonize H fuel a None s1 = Inr (TrueE, eqs, s2) \<longrightarrow>
      check_ineqs H fuel s =
        Inr (False, s2\<lparr>ctx := exec H (Assign (Literal_of a) (linearize eqs))
                                (exec H (Mark_as_relevant (Literal_of a))
                                   (exec H (Internalize a) (ctx s2)))\<rparr>))
   \<and> (\<forall>bs s1.
        canon_all H fuel (m_ineqs s) s = Inr (bs, s1) \<and> TrueE \<notin> fst ` set bs \<longrightarrow>
        check_ineqs H fuel s = Inr (True, s1) \<and> (m_model_completion s \<or> ctx s1 = ctx s))
   \<and> (\<forall>b s'. check_ineqs H fuel s = Inr (b, s') \<longrightarrow> m_ineqs s' = m_ineqs s)"
proof (intro conjI allI impI)
  fix pre a post bs s1 eqs s2
  assume "m_ineqs s = pre @ a # post \<and> canon_all H fuel pre s = Inr (bs, s1) \<and> TrueE \<notin> fst ` set bs \<and>
      canonize H fuel a None s1 = Inr (TrueE, eqs, s2)"
  then show "check_ineqs H fuel s =
        Inr (False, s2\<lparr>ctx := exec H (Assign (Literal_of a) (linearize eqs))
                                (exec H (Mark_as_relevant (Literal_of a))
                                   (exec H (Internalize a) (ctx s2)))\<rparr>)"
    using check_ineqs_loop_first [of H fuel pre s bs s1 a eqs s2 post]
    by (simp add: check_ineqs_def propagate_lit_def call_def)
next
  fix bs s1
  assume a: "canon_all H fuel (m_ineqs s) s = Inr (bs, s1) \<and> TrueE \<notin> fst ` set bs"
  then show "check_ineqs H fuel s = Inr (True, s1)"
    by (simp add: check_ineqs_def check_ineqs_loop_none)
  from a have "canon_step s s1"
    by (blast dest: canon_all_step)
  then show "m_model_completion s \<or> ctx s1 = ctx s"
    by (simp add: canon_step_def)
next
  fix b s'
  assume "check_ineqs H fuel s = Inr (b, s')"
  then have "quiet s s'" by (rule check_ineqs_quiet)
  then show "m_ineqs s' = m_ineqs s" by (simp add: quiet_def)
qed

lemma canonize_st_ineqs_z: "canonize (log_host []) 3 (EqE vz vz) None st_ineqs = Inr (TrueE, None, st_ineqs)"
  by (simp add: canonize_def numeral_3_eq_3 find_sol_none expand_args_def expand_var_def mk_join_def
      st_ineqs_def init_def log_host_def vz_def)

lemma canon_all_st_ineqs:
  "canon_all (log_host []) 3 [EqE vx vy] st_ineqs = Inr ([(EqE vx vy, None)], st_ineqs)"
  by (simp add: canonize_def numeral_3_eq_3 find_sol_none expand_args_def expand_var_def mk_join_def
      st_ineqs_def init_def log_host_def vx_def vy_def)

lemma canon_all_st_ineqs_ok:
  "canon_all (log_host []) 3 [EqE vx vy, EqE vx vz] st_ineqs_ok
     = Inr ([(EqE vx vy, None), (EqE vx vz, None)], st_ineqs_ok)"
  by (simp add: canonize_def numeral_3_eq_3 find_sol_none expand_args_def expand_var_def mk_join_def
      st_ineqs_ok_def init_def log_host_def vx_def vy_def vz_def)

theorem check_ineqs_stops_at_first_refuted_witness:
  "check_ineqs (log_host []) 3 st_ineqs =
     Inr (False, st_ineqs\<lparr>ctx := [Internalize (EqE vz vz), Mark_as_relevant (Literal_of (EqE vz vz)),
                                   Assign (Literal_of (EqE vz vz)) []]\<rparr>)
   \<and> check_ineqs (log_host []) 3 st_ineqs_ok = Inr (True, st_ineqs_ok)
   \<and> m_ineqs st_ineqs_ok = [EqE vx vy, EqE vx vz]"
proof -
  have i1: "m_ineqs st_ineqs = [EqE vx vy] @ EqE vz vz # [EqE vx vz]"
    by (simp add: st_ineqs_def)
  have n1: "TrueE \<notin> fst ` set [(EqE vx vy, None :: enode_pair_dependency)]"
    by simp
  have i2: "m_ineqs st_ineqs_ok = [EqE vx vy, EqE vx vz]"
    by (simp add: st_ineqs_ok_def)
  have n2: "TrueE \<notin> fst ` set [(EqE vx vy, None :: enode_pair_dependency), (EqE vx vz, None)]"
    by simp
  have a: "check_ineqs (log_host []) 3 st_ineqs =
     Inr (False, st_ineqs\<lparr>ctx := exec (log_host []) (Assign (Literal_of (EqE vz vz)) (linearize None))
                                (exec (log_host []) (Mark_as_relevant (Literal_of (EqE vz vz)))
                                   (exec (log_host []) (Internalize (EqE vz vz)) (ctx st_ineqs)))\<rparr>)"
    using check_ineqs_stops_at_first_refuted [of st_ineqs "log_host []" 3]
      i1 canon_all_st_ineqs n1 canonize_st_ineqs_z by blast
  have b: "check_ineqs (log_host []) 3 st_ineqs_ok = Inr (True, st_ineqs_ok)"
    using check_ineqs_stops_at_first_refuted [of st_ineqs_ok "log_host []" 3]
      canon_all_st_ineqs_ok n2 unfolding i2 by blast
  from a b i2 show ?thesis
    by (simp add: log_host_def linearize_def st_ineqs_def init_def)
qed

section \<open>The final check\<close>

lemma assume_equality_false: "assume_equality H l r s = (False, s') \<Longrightarrow> s' = s"
  by (auto simp: assume_equality_def Let_def split: if_splits)

lemma branch_prefixes_false: "branch_prefixes H l v0 str ks s = (False, s') \<Longrightarrow> s' = s"
proof (induction ks arbitrary: s)
  case Nil
  then show ?case by simp
next
  case (Cons k ks)
  obtain b s1 where a: "assume_equality H l (Concat v0 (Str (take k str))) s = (b, s1)"
    by (cases "assume_equality H l (Concat v0 (Str (take k str))) s")
  with Cons.prems have "\<not> b" by (cases b) auto
  with a have "s1 = s" by (auto dest: assume_equality_false)
  with Cons a \<open>\<not> b\<close> show ?case by simp
qed

lemma branch_atoms_false: "branch_atoms H l v0 j rs s = (False, s') \<Longrightarrow> s' = s"
proof (induction rs arbitrary: v0 j s)
  case Nil
  then show ?case by simp
next
  case (Cons r rs)
  show ?case
  proof (cases "occurs l r")
    case True
    with Cons.prems show ?thesis by simp
  next
    case False
    let ?p = "case r of Str str \<Rightarrow> branch_prefixes H l v0 str [1..<length str] s | _ \<Rightarrow> (False, s)"
    let ?v = "if j = 0 then r else Concat v0 r"
    obtain b1 s1 where p: "?p = (b1, s1)" by (cases ?p)
    with Cons.prems False have nb1: "\<not> b1" by (cases b1) auto
    with p have s1: "s1 = s"
      by (cases r) (auto dest: branch_prefixes_false)
    obtain b2 s2 where a: "assume_equality H l ?v s = (b2, s2)"
      by (cases "assume_equality H l ?v s")
    with Cons.prems False p nb1 s1 have nb2: "\<not> b2" by (cases b2) auto
    with a have s2: "s2 = s" by (auto dest: assume_equality_false)
    from Cons.prems False p nb1 s1 a nb2 s2
    have "branch_atoms H l ?v (j + 1) rs s = (False, s')" by simp
    then show ?thesis by (rule Cons.IH)
  qed
qed

lemma find_branch_candidate_false: "find_branch_candidate H l rs s = (False, s') \<Longrightarrow> s' = s"
proof -
  assume a: "find_branch_candidate H l rs s = (False, s')"
  show ?thesis
  proof (cases "is_var l")
    case False
    with a show ?thesis by (simp add: find_branch_candidate_def)
  next
    case True
    obtain b s1 where e: "assume_equality H l (Empty (get_sort l)) s = (b, s1)"
      by (cases "assume_equality H l (Empty (get_sort l)) s")
    with a True have nb: "\<not> b" by (cases b) (auto simp: find_branch_candidate_def)
    with e have "s1 = s" by (auto dest: assume_equality_false)
    with a True e nb show ?thesis
      by (auto simp: find_branch_candidate_def dest: branch_atoms_false)
  qed
qed

lemma branch_loop_false: "branch_loop H sz is s = (False, s') \<Longrightarrow> s' = s"
proof (induction "is" arbitrary: s)
  case Nil
  then show ?case by simp
next
  case (Cons i "is")
  let ?k = "branch_index i (m_branch_variable_head s) sz"
  let ?ls = "get_concat H (fst (m_eqs s ! ?k))"
  let ?rs = "get_concat H (fst (snd (m_eqs s ! ?k)))"
  let ?c1 = "if ?ls \<noteq> [] then find_branch_candidate H (hd ?ls) ?rs s else (False, s)"
  obtain b1 s1 where c1: "?c1 = (b1, s1)" by (cases ?c1)
  with Cons.prems have nb1: "\<not> b1" by (cases b1) (auto simp: Let_def)
  with c1 have s1: "s1 = s"
    by (auto split: if_splits dest: find_branch_candidate_false)
  let ?c2 = "if ?rs \<noteq> [] then find_branch_candidate H (hd ?rs) ?ls s else (False, s)"
  obtain b2 s2 where c2: "?c2 = (b2, s2)" by (cases ?c2)
  with Cons.prems c1 nb1 s1 have nb2: "\<not> b2" by (cases b2) (auto simp: Let_def)
  with c2 have s2: "s2 = s"
    by (auto split: if_splits dest: find_branch_candidate_false)
  from Cons.prems c1 nb1 s1 c2 nb2 s2 have "branch_loop H sz is s = (False, s')"
    by (simp add: Let_def)
  then show ?case by (rule Cons.IH)
qed

lemma branch_variable_false: "branch_variable H s = (False, s') \<Longrightarrow> s' = s"
  unfolding branch_variable_def by (rule branch_loop_false)

text \<open>
  C1. \<^verbatim>\<open>final_check_eh\<close> runs \<^verbatim>\<open>check_ineqs\<close>, then \<^verbatim>\<open>simplify_and_solve_eqs\<close> on the
  state that \<^verbatim>\<open>check_ineqs\<close> left, then \<^verbatim>\<open>branch_variable\<close> on the state that the
  simplification left, then \<^verbatim>\<open>split_variable\<close>. It returns \<open>continue\<close> with the
  state of the first phase that made progress (a refuted inequation, a changed frame,
  a proposed case split) or after which the host is inconsistent, and the later phases
  do not run. When no phase made progress, branching has left the state as it was,
  \<^verbatim>\<open>split_variable\<close> has done nothing, and the result is \<open>give up\<close> if the current
  frame holds an equation or the incompleteness flag is set, and \<open>done\<close> otherwise.
  A phase that does not return normally ends the final check in the same way.
\<close>

theorem final_check_eh_phases:
  "(\<forall>s1. check_ineqs H fuel s = Inr (False, s1) \<longrightarrow>
      final_check_eh H fuel s = Inr (FC_CONTINUE, s1))
   \<and> (\<forall>s1 s2. check_ineqs H fuel s = Inr (True, s1) \<and> simplify_and_solve_eqs H fuel s1 = Inr (True, s2) \<longrightarrow>
      final_check_eh H fuel s = Inr (FC_CONTINUE, s2))
   \<and> (\<forall>s1 s2. check_ineqs H fuel s = Inr (True, s1) \<and> simplify_and_solve_eqs H fuel s1 = Inr (False, s2) \<and>
      inconsistent H (ctx s2) \<longrightarrow>
      final_check_eh H fuel s = Inr (FC_CONTINUE, s2))
   \<and> (\<forall>s1 s2 s3. check_ineqs H fuel s = Inr (True, s1) \<and> simplify_and_solve_eqs H fuel s1 = Inr (False, s2) \<and>
      \<not> inconsistent H (ctx s2) \<and> branch_variable H s2 = (True, s3) \<longrightarrow>
      final_check_eh H fuel s = Inr (FC_CONTINUE, s3))
   \<and> (\<forall>s1 s2 s3. check_ineqs H fuel s = Inr (True, s1) \<and> simplify_and_solve_eqs H fuel s1 = Inr (False, s2) \<and>
      \<not> inconsistent H (ctx s2) \<and> branch_variable H s2 = (False, s3) \<longrightarrow>
      s3 = s2 \<and> \<not> split_variable s3 \<and>
      final_check_eh H fuel s =
        Inr (if m_eqs s2 \<noteq> [] \<or> m_incomplete s2 then FC_GIVEUP else FC_DONE, s2))
   \<and> (\<forall>err. check_ineqs H fuel s = Inl err \<longrightarrow> final_check_eh H fuel s = Inl err)
   \<and> (\<forall>s1 err. check_ineqs H fuel s = Inr (True, s1) \<and> simplify_and_solve_eqs H fuel s1 = Inl err \<longrightarrow>
      final_check_eh H fuel s = Inl err)
   \<and> (\<forall>status s'. final_check_eh H fuel s = Inr (status, s') \<longrightarrow>
        (status = FC_GIVEUP \<longrightarrow> \<not> inconsistent H (ctx s') \<and> (m_eqs s' \<noteq> [] \<or> m_incomplete s')) \<and>
        (status = FC_DONE \<longrightarrow> \<not> inconsistent H (ctx s') \<and> m_eqs s' = [] \<and> \<not> m_incomplete s'))"
proof -
  have c1: "\<forall>s1. check_ineqs H fuel s = Inr (False, s1) \<longrightarrow>
      final_check_eh H fuel s = Inr (FC_CONTINUE, s1)"
    by (simp add: final_check_eh_def)
  have c2: "\<forall>s1 s2. check_ineqs H fuel s = Inr (True, s1) \<and> simplify_and_solve_eqs H fuel s1 = Inr (True, s2) \<longrightarrow>
      final_check_eh H fuel s = Inr (FC_CONTINUE, s2)"
    by (simp add: final_check_eh_def)
  have c3: "\<forall>s1 s2. check_ineqs H fuel s = Inr (True, s1) \<and> simplify_and_solve_eqs H fuel s1 = Inr (False, s2) \<and>
      inconsistent H (ctx s2) \<longrightarrow>
      final_check_eh H fuel s = Inr (FC_CONTINUE, s2)"
    by (simp add: final_check_eh_def)
  have c4: "\<forall>s1 s2 s3. check_ineqs H fuel s = Inr (True, s1) \<and> simplify_and_solve_eqs H fuel s1 = Inr (False, s2) \<and>
      \<not> inconsistent H (ctx s2) \<and> branch_variable H s2 = (True, s3) \<longrightarrow>
      final_check_eh H fuel s = Inr (FC_CONTINUE, s3)"
    by (simp add: final_check_eh_def)
  have c5: "\<forall>s1 s2 s3. check_ineqs H fuel s = Inr (True, s1) \<and> simplify_and_solve_eqs H fuel s1 = Inr (False, s2) \<and>
      \<not> inconsistent H (ctx s2) \<and> branch_variable H s2 = (False, s3) \<longrightarrow>
      s3 = s2 \<and> \<not> split_variable s3 \<and>
      final_check_eh H fuel s =
        Inr (if m_eqs s2 \<noteq> [] \<or> m_incomplete s2 then FC_GIVEUP else FC_DONE, s2)"
  proof (intro allI impI)
    fix s1 s2 s3
    assume a: "check_ineqs H fuel s = Inr (True, s1) \<and> simplify_and_solve_eqs H fuel s1 = Inr (False, s2) \<and>
      \<not> inconsistent H (ctx s2) \<and> branch_variable H s2 = (False, s3)"
    then have "s3 = s2"
      by (blast dest: branch_variable_false)
    with a show "s3 = s2 \<and> \<not> split_variable s3 \<and>
      final_check_eh H fuel s =
        Inr (if m_eqs s2 \<noteq> [] \<or> m_incomplete s2 then FC_GIVEUP else FC_DONE, s2)"
      by (simp add: final_check_eh_def split_variable_def)
  qed
  have c6: "\<forall>err. check_ineqs H fuel s = Inl err \<longrightarrow> final_check_eh H fuel s = Inl err"
    by (simp add: final_check_eh_def)
  have c7: "\<forall>s1 err. check_ineqs H fuel s = Inr (True, s1) \<and> simplify_and_solve_eqs H fuel s1 = Inl err \<longrightarrow>
      final_check_eh H fuel s = Inl err"
    by (simp add: final_check_eh_def)
  have c8: "\<forall>status s'. final_check_eh H fuel s = Inr (status, s') \<longrightarrow>
        (status = FC_GIVEUP \<longrightarrow> \<not> inconsistent H (ctx s') \<and> (m_eqs s' \<noteq> [] \<or> m_incomplete s')) \<and>
        (status = FC_DONE \<longrightarrow> \<not> inconsistent H (ctx s') \<and> m_eqs s' = [] \<and> \<not> m_incomplete s')"
    by (auto simp: final_check_eh_def split_variable_def split: sum.splits if_splits prod.splits bool.splits)
  show ?thesis
    apply (intro conjI)
           apply (fact c1)
          apply (fact c2)
         apply (fact c3)
        apply (fact c4)
       apply (fact c5)
      apply (fact c6)
     apply (fact c7)
    apply (fact c8)
    done
qed

text \<open>
  Three runs: nothing is pending and the result is \<open>done\<close>; the incompleteness flag
  is set and the result is \<open>give up\<close>; an inequation is refuted and the result is
  \<open>continue\<close>.
\<close>

theorem final_check_eh_phases_witness:
  "final_check_eh (log_host []) 3 (init []) = Inr (FC_DONE, init [])
   \<and> final_check_eh (log_host []) 3 st_incomplete = Inr (FC_GIVEUP, st_incomplete)
   \<and> final_check_eh (log_host []) 3 st_ineqs =
       Inr (FC_CONTINUE, st_ineqs\<lparr>ctx := [Internalize (EqE vz vz), Mark_as_relevant (Literal_of (EqE vz vz)),
                                           Assign (Literal_of (EqE vz vz)) []]\<rparr>)"
proof -
  have n0: "\<not> inconsistent (log_host []) (ctx (init []))"
    by (simp add: log_host_def init_def)
  have n1: "\<not> inconsistent (log_host []) (ctx st_incomplete)"
    by (simp add: log_host_def init_def st_incomplete_def)
  have a: "final_check_eh (log_host []) 3 (init []) = Inr (FC_DONE, init [])"
    using final_check_eh_phases [of "log_host []" 3 "init []", THEN conjunct2, THEN conjunct2,
        THEN conjunct2, THEN conjunct2, THEN conjunct1, THEN spec, THEN spec, THEN spec,
        of "init []" "init []" "init []"]
      check_ineqs_init simplify_and_solve_eqs_init n0 branch_variable_init by (simp add: init_def)
  have b: "final_check_eh (log_host []) 3 st_incomplete = Inr (FC_GIVEUP, st_incomplete)"
    using final_check_eh_phases [of "log_host []" 3 st_incomplete, THEN conjunct2, THEN conjunct2,
        THEN conjunct2, THEN conjunct2, THEN conjunct1, THEN spec, THEN spec, THEN spec,
        of st_incomplete st_incomplete st_incomplete]
      check_ineqs_st_incomplete simplify_and_solve_eqs_st_incomplete n1 branch_variable_st_incomplete
    by (simp add: st_incomplete_def)
  have c: "final_check_eh (log_host []) 3 st_ineqs =
       Inr (FC_CONTINUE, st_ineqs\<lparr>ctx := [Internalize (EqE vz vz), Mark_as_relevant (Literal_of (EqE vz vz)),
                                           Assign (Literal_of (EqE vz vz)) []]\<rparr>)"
    using final_check_eh_phases [of "log_host []" 3 st_ineqs, THEN conjunct1, THEN spec]
      check_ineqs_st_ineqs by simp
  from a b c show ?thesis
    by simp
qed

section \<open>Branching candidates\<close>

lemma find_append_case:
  "List.find P (xs @ ys) = (case List.find P xs of None \<Rightarrow> List.find P ys | Some x \<Rightarrow> Some x)"
  by (induction xs) auto

lemma assume_equality_propose:
  "assume_equality H l c s = (if ex_contains H (m_exclude s) l c then (False, s) else (True, propose H l c s))"
  by (simp add: assume_equality_def propose_def Let_def)

lemma branch_prefixes_find:
  "branch_prefixes H l v0 str ks s =
     (case List.find (\<lambda>c. \<not> ex_contains H (m_exclude s) l c) (map (\<lambda>k. Concat v0 (Str (take k str))) ks) of
        None \<Rightarrow> (False, s)
      | Some c \<Rightarrow> (True, propose H l c s))"
  by (induction ks) (simp_all add: assume_equality_propose)

lemma branch_atoms_find:
  "branch_atoms H l v0 j rs s =
     (case List.find (\<lambda>c. \<not> ex_contains H (m_exclude s) l c)
             (candidates_from v0 j (takeWhile (\<lambda>r. \<not> occurs l r) rs)) of
        None \<Rightarrow> (False, s)
      | Some c \<Rightarrow> (True, propose H l c s))"
proof (induction rs arbitrary: v0 j)
  case Nil
  then show ?case by simp
next
  case (Cons r rs)
  show ?case
  proof (cases "occurs l r")
    case True
    then show ?thesis by simp
  next
    case False
    let ?P = "\<lambda>c. \<not> ex_contains H (m_exclude s) l c"
    let ?pre = "case r of Str str \<Rightarrow> map (\<lambda>k. Concat v0 (Str (take k str))) [1..<length str] | _ \<Rightarrow> []"
    let ?v = "if j = 0 then r else Concat v0 r"
    have pre: "(case r of Str str \<Rightarrow> branch_prefixes H l v0 str [1..<length str] s | _ \<Rightarrow> (False, s))
        = (case List.find ?P ?pre of None \<Rightarrow> (False, s) | Some c \<Rightarrow> (True, propose H l c s))"
      by (cases r) (simp_all add: branch_prefixes_find)
    show ?thesis
    proof (cases "List.find ?P ?pre")
      case (Some c)
      with False pre show ?thesis
        by (simp add: find_append_case)
    next
      case None
      show ?thesis
      proof (cases "ex_contains H (m_exclude s) l ?v")
        case True
        with False pre None Cons.IH [of ?v "j + 1"] show ?thesis
          by (simp add: find_append_case assume_equality_propose)
      next
        case nex: False
        with False pre None show ?thesis
          by (simp add: find_append_case assume_equality_propose)
      qed
    qed
  qed
qed

lemma find_branch_candidate_find:
  "find_branch_candidate H l rs s =
     (if \<not> is_var l then (False, s)
      else
        (case List.find (\<lambda>c. \<not> ex_contains H (m_exclude s) l c)
                (candidates l (takeWhile (\<lambda>r. \<not> occurs l r) rs)) of
           None \<Rightarrow> (False, s)
         | Some c \<Rightarrow> (True, propose H l c s)))"
  by (simp add: find_branch_candidate_def candidates_def assume_equality_propose branch_atoms_find)

lemma st_excl_table:
  "m_table (m_exclude st_excl) = {(Empty (Seq_sort Char_sort), left_ab)}"
  by (simp add: st_excl_def ex_update_def ex_order_def log_host_def left_ab_def Let_def)

lemma excluded_left_ab_empty:
  "ex_contains (log_host []) (m_exclude st_excl) left_ab (Empty (Seq_sort Char_sort))"
  by (simp add: ex_contains_def st_excl_table) (simp add: ex_order_def log_host_def left_ab_def)

lemma not_excluded_left_ab_a:
  "\<not> ex_contains (log_host []) (m_exclude st_excl) left_ab (Concat (Empty (Seq_sort Char_sort)) (Str ''a''))"
  by (simp add: ex_contains_def st_excl_table) (simp add: ex_order_def log_host_def left_ab_def)

lemma occurs_literal:
  assumes "is_var (strip_select l)"
  shows "\<not> occurs l (Str p)" and "\<not> occurs l (Empty srt)"
  using assms by (auto simp: is_var_def)

lemma candidates_from_blocked:
  "occurs l v0 \<Longrightarrow> 0 < j \<Longrightarrow> c \<in> set (candidates_from v0 j rs) \<Longrightarrow> occurs l c"
proof (induction rs arbitrary: v0 j)
  case Nil
  then show ?case by simp
next
  case (Cons r rs)
  have next_blocked: "occurs l (Concat v0 r)"
    using Cons.prems(1) by (simp add: occurs_strip)
  from Cons.prems(3) Cons.prems(2) consider
      (pre) "c \<in> set (case r of Str str \<Rightarrow> map (\<lambda>k. Concat v0 (Str (take k str))) [1..<length str] | _ \<Rightarrow> [])"
    | (atom) "c = Concat v0 r"
    | (rest) "c \<in> set (candidates_from (Concat v0 r) (j + 1) rs)"
    by auto
  then show ?case
  proof cases
    case pre
    with Cons.prems(1) show ?thesis
      by (cases r) (auto simp: occurs_strip)
  next
    case atom
    with next_blocked show ?thesis by simp
  next
    case rest
    from Cons.IH [OF next_blocked _ rest] show ?thesis by simp
  qed
qed

lemma find_all_blocked:
  "(\<And>c. c \<in> set xs \<Longrightarrow> occurs l c) \<Longrightarrow> List.find (\<lambda>c. \<not> occurs l c \<and> Q c) xs = None"
  by (simp add: find_None_iff)

lemma find_none_blocked:
  "(\<And>c. c \<in> set xs \<Longrightarrow> \<not> occurs l c) \<Longrightarrow> List.find (\<lambda>c. \<not> occurs l c \<and> Q c) xs = List.find Q xs"
  by (induction xs) simp_all

lemma candidates_from_find:
  assumes "is_var (strip_select l)"
  shows "\<not> occurs l v0 \<Longrightarrow>
         List.find (\<lambda>c. \<not> occurs l c \<and> Q c) (candidates_from v0 j rs)
           = List.find Q (candidates_from v0 j (takeWhile (\<lambda>r. \<not> occurs l r) rs))"
proof (induction rs arbitrary: v0 j)
  case Nil
  then show ?case by simp
next
  case (Cons r rs)
  let ?P = "\<lambda>c. \<not> occurs l c \<and> Q c"
  let ?pre = "case r of Str str \<Rightarrow> map (\<lambda>k. Concat v0 (Str (take k str))) [1..<length str] | _ \<Rightarrow> []"
  let ?v = "if j = 0 then r else Concat v0 r"
  show ?case
  proof (cases "occurs l r")
    case True
    with occurs_literal(1) [OF assms] have pre: "?pre = []"
      by (cases r) auto
    from True have v: "occurs l ?v" by (simp add: occurs_strip)
    have "c \<in> set (?v # candidates_from ?v (j + 1) rs) \<Longrightarrow> occurs l c" for c
      using v candidates_from_blocked [of l ?v "j + 1" c rs] by auto
    from find_all_blocked [of "?v # candidates_from ?v (j + 1) rs" l Q, OF this]
    have "List.find ?P (?v # candidates_from ?v (j + 1) rs) = None" by simp
    with True pre show ?thesis by simp
  next
    case False
    have p: "c \<in> set ?pre \<Longrightarrow> \<not> occurs l c" for c
      using Cons.prems occurs_literal(1) [OF assms] by (cases r) (auto simp: occurs_strip strip_select_idem)
    from False Cons.prems have v: "\<not> occurs l ?v" by (simp add: occurs_strip)
    have pre_eq: "List.find ?P ?pre = List.find Q ?pre"
      by (rule find_none_blocked) (rule p)
    have rest: "List.find ?P (?v # candidates_from ?v (j + 1) rs)
        = List.find Q (?v # candidates_from ?v (j + 1) (takeWhile (\<lambda>r. \<not> occurs l r) rs))"
      using v Cons.IH [OF v, of "j + 1"] by simp
    have lhs: "List.find ?P (candidates_from v0 j (r # rs))
        = (case List.find Q ?pre of
             None \<Rightarrow> List.find Q (?v # candidates_from ?v (j + 1) (takeWhile (\<lambda>r. \<not> occurs l r) rs))
           | Some x \<Rightarrow> Some x)"
      by (simp only: candidates_from.simps find_append_case pre_eq rest)
    have tw: "takeWhile (\<lambda>r. \<not> occurs l r) (r # rs) = r # takeWhile (\<lambda>r. \<not> occurs l r) rs"
      using False by simp
    have rhs: "List.find Q (candidates_from v0 j (r # takeWhile (\<lambda>r. \<not> occurs l r) rs))
        = (case List.find Q ?pre of
             None \<Rightarrow> List.find Q (?v # candidates_from ?v (j + 1) (takeWhile (\<lambda>r. \<not> occurs l r) rs))
           | Some x \<Rightarrow> Some x)"
      by (simp only: candidates_from.simps find_append_case)
    show ?thesis
      unfolding tw lhs rhs by (rule refl)
  qed
qed

lemma candidates_find:
  assumes "is_var (strip_select l)"
  shows "List.find (\<lambda>c. \<not> occurs l c \<and> Q c) (candidates l rs)
           = List.find Q (candidates l (takeWhile (\<lambda>r. \<not> occurs l r) rs))"
  unfolding candidates_def
  using occurs_literal(2) [OF assms] candidates_from_find [OF assms occurs_literal(2) [OF assms]]
  by simp

lemma is_var_strip_select: "is_var (strip_select l) \<Longrightarrow> is_var l"
  by (cases l) (auto simp: is_var_def split: if_splits)

text \<open>
  C4: on a variable \<open>l\<close> (the term under its left/right selectors is a variable, as
  for every variable that is not itself a selector), \<^verbatim>\<open>find_branch_candidate\<close> is the
  enumeration that merely skips: it goes through all the candidate alignments in
  order, skips each one that the occurs check blocks or whose pair is in the exclusion
  table, and proposes the first candidate that is left, whatever was skipped before
  it. The \<^verbatim>\<open>return false\<close> at an atom that the occurs check hits skips nothing more:
  every candidate from that atom on contains the atom and is blocked.
\<close>

theorem find_branch_candidate_skips:
  assumes "is_var (strip_select l)"
  shows "find_branch_candidate H l rs s = spec_find_branch_candidate H l rs s"
  unfolding find_branch_candidate_find spec_find_branch_candidate_def
  using candidates_find [OF assms, of "\<lambda>c. \<not> ex_contains H (m_exclude s) l c" rs]
  by simp

text \<open>
  The empty sequence is excluded for \<open>x\<close> and skipped, and the next candidate, the
  atom \<open>y\<close>, is proposed. Against the atoms \<open>x, y\<close> the empty sequence is skipped,
  the candidates \<open>x\<close> and \<open>x\<frown>y\<close> are blocked, and nothing is proposed.
\<close>

theorem find_branch_candidate_skips_witness:
  "is_var (strip_select vx)
   \<and> ex_contains (log_host []) (m_exclude st_excl_x) vx (Empty (Seq_sort Char_sort))
   \<and> find_branch_candidate (log_host []) vx [vy] st_excl_x = (True, propose (log_host []) vx vy st_excl_x)
   \<and> occurs vx vx \<and> occurs vx (Concat vx vy)
   \<and> find_branch_candidate (log_host []) vx [vx, vy] st_excl_x = (False, st_excl_x)"
proof -
  have t: "m_table (m_exclude st_excl_x) = {(Empty (Seq_sort Char_sort), vx)}"
    by (simp add: st_excl_x_def ex_update_def ex_order_def log_host_def vx_def Let_def)
  have e: "ex_contains (log_host []) (m_exclude st_excl_x) vx (Empty (Seq_sort Char_sort))"
    by (simp add: ex_contains_def t) (simp add: ex_order_def log_host_def vx_def)
  have n: "\<not> ex_contains (log_host []) (m_exclude st_excl_x) vx vy"
    by (simp add: ex_contains_def t) (simp add: ex_order_def log_host_def vx_def vy_def)
  have sv: "is_var (strip_select vx)" and v: "is_var vx" and srt: "get_sort vx = Seq_sort Char_sort"
    by (simp_all add: vx_def is_var_def)
  have o: "\<not> occurs vx vy" "\<not> occurs vx (Empty (Seq_sort Char_sort))" "occurs vx vx" "occurs vx (Concat vx vy)"
    by (simp_all add: vx_def vy_def)
  have a: "spec_find_branch_candidate (log_host []) vx [vy] st_excl_x = (True, propose (log_host []) vx vy st_excl_x)"
    using v e n o by (simp add: spec_find_branch_candidate_def candidates_def srt) (simp add: vy_def)
  have b: "spec_find_branch_candidate (log_host []) vx [vx, vy] st_excl_x = (False, st_excl_x)"
    using v e o by (simp add: spec_find_branch_candidate_def candidates_def srt) (simp add: vx_def vy_def)
  from find_branch_candidate_skips [OF sv, of "log_host []" "[vy]" st_excl_x]
    find_branch_candidate_skips [OF sv, of "log_host []" "[vx, vy]" st_excl_x] a b sv e o
  show ?thesis by simp
qed

text \<open>
  The hypothesis is needed. For a left selector over a string literal, a term that the
  source file builds nowhere, the occurs check hits the literal itself and not its
  proper prefixes: against the atoms \<open>"ab", y\<close>, with the empty sequence excluded,
  \<^verbatim>\<open>find_branch_candidate\<close> returns false at the atom \<open>"ab"\<close>, where the enumeration
  that skips proposes \<open>\<epsilon>\<frown>"a"\<close>.
\<close>

lemma selector_over_literal_stops_at_occurs:
  "\<not> is_var (strip_select left_ab)
   \<and> is_var left_ab
   \<and> occurs left_ab (Str ''ab'')
   \<and> \<not> occurs left_ab (Concat (Empty (Seq_sort Char_sort)) (Str ''a''))
   \<and> \<not> ex_contains (log_host []) (m_exclude st_excl) left_ab (Concat (Empty (Seq_sort Char_sort)) (Str ''a''))
   \<and> find_branch_candidate (log_host []) left_ab [Str ''ab'', vy] st_excl = (False, st_excl)
   \<and> spec_find_branch_candidate (log_host []) left_ab [Str ''ab'', vy] st_excl
       = (True, propose (log_host []) left_ab (Concat (Empty (Seq_sort Char_sort)) (Str ''a'')) st_excl)"
proof -
  have v: "is_var left_ab"
    by (simp add: left_ab_def is_var_def)
  have o: "occurs left_ab (Str ''ab'')"
    by (simp add: left_ab_def m_left_sym_def)
  have n: "\<not> occurs left_ab (Concat (Empty (Seq_sort Char_sort)) (Str ''a''))"
    by (simp add: left_ab_def m_left_sym_def)
  have srt: "get_sort left_ab = Seq_sort Char_sort"
    by (simp add: left_ab_def)
  have st: "strip_select left_ab = Str ''ab''"
    by (simp add: left_ab_def m_left_sym_def)
  have code: "find_branch_candidate (log_host []) left_ab [Str ''ab'', vy] st_excl = (False, st_excl)"
    by (simp add: find_branch_candidate_find v st candidates_def srt excluded_left_ab_empty)
  have two: "[1..<length ''ab''] = [1]"
    by (simp add: upt_rec)
  have spec: "spec_find_branch_candidate (log_host []) left_ab [Str ''ab'', vy] st_excl
       = (True, propose (log_host []) left_ab (Concat (Empty (Seq_sort Char_sort)) (Str ''a'')) st_excl)"
    by (simp add: spec_find_branch_candidate_def v candidates_def srt excluded_left_ab_empty two st
        not_excluded_left_ab_a)
  from v o n st not_excluded_left_ab_a code spec show ?thesis
    by (simp add: is_var_def)
qed

section \<open>Scope reversibility\<close>

text \<open>
  C2: after any run of operations from the constructor, \<^verbatim>\<open>push_scope_eh\<close>, a further run
  that closes the scopes it opens and no other, and \<^verbatim>\<open>pop_scope_eh(1)\<close>, the pop succeeds
  and every backtrackable store is what it was before the push: the solution map, the
  exclusion table, the current frame of pending equations and the frames below it, the
  incompleteness flag, the axioms and their cursor, the inequations and the trail stack.
\<close>

theorem push_ops_pop_restores:
  assumes "run_ops H fuel0 ops0 (init h) = Inr s0"
    and "run_ops H fuel ops (push_scope_eh H s0) = Inr s2"
    and "scope_depth 0 ops = Some 0"
  shows "\<exists>s3. pop_scope_eh H 1 s2 = Inr s3 \<and>
           m_rep s3 = m_rep s0 \<and> m_exclude s3 = m_exclude s0 \<and>
           m_eqs s3 = m_eqs s0 \<and> m_eqs_stack s3 = m_eqs_stack s0 \<and>
           m_incomplete s3 = m_incomplete s0 \<and> m_axioms_head s3 = m_axioms_head s0 \<and>
           m_axioms s3 = m_axioms s0 \<and> m_ineqs s3 = m_ineqs s0 \<and>
           m_trail_stack s3 = m_trail_stack s0"
proof -
  let ?b = "push_scope_eh H s0"
  from run_ops_wf [OF wf_init assms(1)] have w0: "wf s0" .
  from push_scope_eh_view [OF w0, of H] have wb: "wf ?b" and pb: "pop_view (Suc 0) ?b = pop_view 0 s0"
    by simp_all
  have "\<And>k. 1 \<le> k \<Longrightarrow> pop_view (k + 0) ?b = pop_view k ?b" by simp
  from run_ops_view [OF wb this assms(2) assms(3)]
  have "pop_view 1 s2 = pop_view 1 ?b" by simp
  with pb have v: "pop_view 1 s2 = pop_view 0 s0" by simp
  from pop_scope_eh_exists [OF v] obtain s3 where p: "pop_scope_eh H 1 s2 = Inr s3" by blast
  from pop_scope_eh_view [OF p] v have "pop_view 0 s3 = pop_view 0 s0" by simp
  then have "m_rep s3 = m_rep s0" "m_exclude s3 = m_exclude s0" "m_eqs s3 = m_eqs s0"
    "m_eqs_stack s3 = m_eqs_stack s0" "m_trail_stack s3 = m_trail_stack s0" "trailed s3 = trailed s0"
    unfolding pop_view_0 by simp_all
  with p show ?thesis by (simp add: trailed_def)
qed

theorem push_ops_pop_restores_witness:
  "\<exists>s0 s2 s3.
     run_ops (log_host [vx, vy]) 3 [Op_update vx vy dxy, Op_create_axiom TrueE] (init []) = Inr s0 \<and>
     run_ops (log_host [vx, vy]) 3
       [Op_update vy vz dyz, Op_exclude vx vz, Op_new_diseq 0 1, Op_propagate,
        Op_create_axiom (LeE (IntE 0) (Length vx)), Op_set_incomplete (Length vx)]
       (push_scope_eh (log_host [vx, vy]) s0) = Inr s2 \<and>
     scope_depth 0
       [Op_update vy vz dyz, Op_exclude vx vz, Op_new_diseq 0 1, Op_propagate,
        Op_create_axiom (LeE (IntE 0) (Length vx)), Op_set_incomplete (Length vx)] = Some 0 \<and>
     \<not> m_incomplete s0 \<and> m_incomplete s2 \<and>
     pop_scope_eh (log_host [vx, vy]) 1 s2 = Inr s3 \<and>
     m_rep s3 = m_rep s0 \<and> m_exclude s3 = m_exclude s0 \<and>
     m_eqs s3 = m_eqs s0 \<and> m_eqs_stack s3 = m_eqs_stack s0 \<and>
     m_incomplete s3 = m_incomplete s0 \<and> m_axioms_head s3 = m_axioms_head s0 \<and>
     m_axioms s3 = m_axioms s0 \<and> m_ineqs s3 = m_ineqs s0 \<and>
     m_trail_stack s3 = m_trail_stack s0"
proof -
  let ?H = "log_host [vx, vy]"
  let ?ops = "[Op_update vy vz dyz, Op_exclude vx vz, Op_new_diseq 0 1, Op_propagate,
        Op_create_axiom (LeE (IntE 0) (Length vx)), Op_set_incomplete (Length vx)]"
  obtain s0 where a: "run_ops ?H 3 [Op_update vx vy dxy, Op_create_axiom TrueE] (init []) = Inr s0"
    and a': "\<not> m_incomplete s0"
    by (simp add: init_def create_axiom_def ts_push_def)
  obtain s2 where b: "run_ops ?H 3 ?ops (push_scope_eh ?H s0) = Inr s2" and b': "m_incomplete s2"
    by (simp add: set_incomplete_def)
  have c: "scope_depth 0 ?ops = Some 0" by simp
  from push_ops_pop_restores [OF a b c] a a' b b' c show ?thesis by blast
qed

section \<open>Unsupported terms\<close>

lemma final_check_eh_idle:
  assumes "m_ineqs s = []" and "m_eqs s = []"
  shows "final_check_eh H (Suc n) s =
     Inr (if inconsistent H (ctx s) then FC_CONTINUE else if m_incomplete s then FC_GIVEUP else FC_DONE, s)"
proof -
  have a: "check_ineqs H (Suc n) s = Inr (True, s)"
    using assms by (simp add: check_ineqs_def)
  have b: "simplify_and_solve_eqs H (Suc n) s = Inr (False, s)"
    using assms by (simp add: simplify_and_solve_eqs_def simplify_eqs_def solve_basic_eqs_def pre_process_eqs_def)
  have c: "branch_variable H s = (False, s)"
    using assms by (simp add: branch_variable_def)
  show ?thesis
    using a b c assms by (simp add: final_check_eh_def split_variable_def)
qed

text \<open>
  C10: a term of length, indexof, replace, extract or regex membership has none of the
  supported heads. \<^verbatim>\<open>internalize_term\<close> of a term without a supported head sets the
  incompleteness flag; the flag is still set after any run that closes no scope but those
  it opens, and \<^verbatim>\<open>final_check_eh\<close> then answers give up or continue, never done, and
  leaves the flag set.
\<close>

theorem unsupported_term_never_done:
  "(\<forall>a b c. \<not> supported_head (Length a) \<and> \<not> supported_head (Index a b) \<and>
            \<not> supported_head (Replace a b c) \<and> \<not> supported_head (Extract a b c) \<and>
            \<not> supported_head (In_re a b))
   \<and> (\<forall>t s fuel ops s2 e.
         \<not> supported_head t \<longrightarrow>
         run_ops H fuel ops (snd (internalize_term H t s)) = Inr s2 \<longrightarrow>
         scope_depth 0 ops = Some e \<longrightarrow>
         m_incomplete (snd (internalize_term H t s)) \<and> m_incomplete s2 \<and>
         (\<forall>fuel' st s3. final_check_eh H fuel' s2 = Inr (st, s3) \<longrightarrow>
            (st = FC_GIVEUP \<or> st = FC_CONTINUE) \<and> m_incomplete s3))"
proof (intro conjI allI impI)
  fix t s fuel ops s2 e
  assume u: "\<not> supported_head t"
    and r: "run_ops H fuel ops (snd (internalize_term H t s)) = Inr s2"
    and d: "scope_depth 0 ops = Some e"
  let ?s1 = "snd (internalize_term H t s)"
  from internalize_term_flag [OF u] show i1: "m_incomplete ?s1" .
  from run_ops_flag_kept [OF flag_kept_start [OF i1] r d] show i2: "m_incomplete s2"
    by (simp add: flag_kept_def)
  fix fuel' st s3
  assume f: "final_check_eh H fuel' s2 = Inr (st, s3)"
  from final_check_eh_quiet [OF f] i2 show i3: "m_incomplete s3" by (simp add: quiet_def)
  from final_check_eh_done [of H fuel' s2 s3] f i3 have "st \<noteq> FC_DONE" by auto
  then show "st = FC_GIVEUP \<or> st = FC_CONTINUE" by (cases st) simp_all
qed (simp_all add: supported_head_def)

theorem unsupported_term_never_done_witness:
  "\<exists>s2 s3.
     \<not> supported_head (Length vx) \<and>
     run_ops (log_host []) 3 [Op_push_scope, Op_update vx vy dxy, Op_pop_scope 1, Op_push_scope]
       (snd (internalize_term (log_host []) (Length vx) (init []))) = Inr s2 \<and>
     scope_depth 0 [Op_push_scope, Op_update vx vy dxy, Op_pop_scope 1, Op_push_scope] = Some 1 \<and>
     m_incomplete s2 \<and>
     final_check_eh (log_host []) 3 s2 = Inr (FC_GIVEUP, s3) \<and> m_incomplete s3"
proof -
  let ?H = "log_host []"
  let ?ops = "[Op_push_scope, Op_update vx vy dxy, Op_pop_scope 1, Op_push_scope]"
  let ?s1 = "snd (internalize_term ?H (Length vx) (init []))"
  have u: "\<not> supported_head (Length vx)" by (simp add: supported_head_def)
  have d: "scope_depth 0 ?ops = Some 1" by simp
  have s1: "?s1 = (init [Internalize vx, Theory_mk_var (Enode vx), Attach_th_var (Enode vx),
                          Mk_enode (Length vx), Theory_mk_var (Enode (Length vx)),
                          Attach_th_var (Enode (Length vx))])
                   \<lparr>m_incomplete := True,
                     m_trail_stack := \<lparr>ts_trail = [Value_trail_incomplete False], ts_scopes = []\<rparr>\<rparr>"
    by (simp add: internalize_term_def internalize_arg_def mk_var_def call_def log_host_def init_def
        set_incomplete_def ts_push_def vx_def Let_def is_bool_def)
  obtain s2 where r: "run_ops ?H 3 ?ops ?s1 = Inr s2"
    and e: "m_ineqs s2 = []" "m_eqs s2 = []" "\<not> inconsistent ?H (ctx s2)"
    unfolding s1
    by (simp add: push_scope_eh_def pop_scope_eh_def ts_pop_scope_def sm_pop_scope_def ex_pop_scope_def
        frames_pop_def sm_push_scope_def ex_push_scope_def ts_push_scope_def ts_push_def call_def
        update_def add_trail_def log_host_def init_def Let_def)
  from unsupported_term_never_done [of ?H, THEN conjunct2, rule_format, OF u r d]
  have i2: "m_incomplete s2"
    and k: "\<And>st s3. final_check_eh ?H 3 s2 = Inr (st, s3) \<Longrightarrow> m_incomplete s3"
    by blast+
  have f: "final_check_eh ?H 3 s2 = Inr (FC_GIVEUP, s2)"
    using final_check_eh_idle [OF e(1) e(2), of ?H 2] e(3) i2 by (simp add: numeral_3_eq_3)
  from u r d i2 f k [OF f] show ?thesis by blast
qed

end
